theory Spec2Isabelle
  imports Complex_Main "HOL-Library.Word"
begin

section \<open>Numbers and typed arrays of the convolution\<close>

text \<open>
  The pixel data of an \<^verbatim>\<open>ImageData\<close> is a \<^verbatim>\<open>Uint8ClampedArray\<close>:
  four bytes (red, green, blue, alpha) per pixel, row after row.

  The numbers the convolution computes with are JavaScript numbers. The model takes the
  kernel weights as integers, as the only kernel of the repository (\<^verbatim>\<open>sharpenKernel\<close>)
  has them; sums of products of bytes and such weights are exact in IEEE doubles, so the
  arithmetic of the code is integer arithmetic. The one non-integer that can arise is
  \<^verbatim>\<open>NaN\<close>, from a read beyond the end of an array (\<^verbatim>\<open>undefined\<close>) that
  enters a product: it is the value \<open>None\<close>.
\<close>

type_synonym u8 = "8 word"

type_synonym number = "int option"

definition num_add :: "number \<Rightarrow> number \<Rightarrow> number" where
  "num_add a b = (case a of None \<Rightarrow> None | Some x \<Rightarrow> (case b of None \<Rightarrow> None | Some y \<Rightarrow> Some (x + y)))"

definition num_mul :: "number \<Rightarrow> number \<Rightarrow> number" where
  "num_mul a b = (case a of None \<Rightarrow> None | Some x \<Rightarrow> (case b of None \<Rightarrow> None | Some y \<Rightarrow> Some (x * y)))"

text \<open>\<^verbatim>\<open>a[i]\<close> read as a number: the element, or \<^verbatim>\<open>undefined\<close> (then \<^verbatim>\<open>NaN\<close>) out of range.\<close>

definition bytes_get :: "u8 list \<Rightarrow> nat \<Rightarrow> number" where
  "bytes_get a i = (if i < length a then Some (uint (a ! i)) else None)"

definition array_get :: "int list \<Rightarrow> nat \<Rightarrow> number" where
  "array_get a i = (if i < length a then Some (a ! i) else None)"

text \<open>
  A store into a \<^verbatim>\<open>Uint8ClampedArray\<close> converts the number with the
  \<^verbatim>\<open>ToUint8Clamp\<close> operation of ECMAScript: \<^verbatim>\<open>NaN\<close> becomes 0, a value below 0
  becomes 0, a value above 255 becomes 255 (an integer in between is stored as it is).
  A store at an index beyond the array is ignored, as \<open>list_update\<close> does.
\<close>

definition toUint8Clamp :: "number \<Rightarrow> u8" where
  "toUint8Clamp v = (case v of None \<Rightarrow> 0 | Some x \<Rightarrow> word_of_int (max 0 (min 255 x)))"

text \<open>
  \<^verbatim>\<open>Math.round(Math.sqrt(n))\<close> for an array length \<open>n\<close>: the nearest integer to the
  square root, that is the least \<open>s\<close> with \<open>n \<le> s\<^sup>2 + s\<close> (the square root of an
  integer is never half way between two integers).
\<close>

function side_search :: "nat \<Rightarrow> nat \<Rightarrow> nat" where
  "side_search n s = (if n \<le> s * s + s then s else side_search n (Suc s))"
  by pat_completeness auto
termination
  by (relation "measure (\<lambda>(n, s). n - (s * s + s))") auto

declare side_search.simps [simp del]

definition round_sqrt :: "nat \<Rightarrow> nat" where
  "round_sqrt n = side_search n 0"

section \<open>applyConvolution\<close>

datatype dom_error = IndexSizeError | InvalidStateError

record ImageData =
  im_width :: nat
  im_height :: nat
  data :: "u8 list"

text \<open>
  The canvas of \<open>applyConvolution\<close> is seen through \<^verbatim>\<open>getImageData\<close> and
  \<^verbatim>\<open>putImageData\<close> only, so the context is modelled by its bitmap as 8-bit RGBA.
  \<^verbatim>\<open>getImageData(0, 0, w, h)\<close> throws \<^verbatim>\<open>IndexSizeError\<close> when \<open>w\<close> or \<open>h\<close> is zero
  and otherwise returns a fresh copy of the rectangle, transparent black outside the
  bitmap; \<^verbatim>\<open>createImageData(w, h)\<close> throws likewise and returns transparent black;
  \<^verbatim>\<open>putImageData(img, 0, 0)\<close> overwrites the pixels of the bitmap that the image covers.
\<close>

definition pixel_bytes :: "ImageData \<Rightarrow> nat \<Rightarrow> nat \<Rightarrow> u8 list" where
  "pixel_bytes bm x y =
     (if x < im_width bm \<and> y < im_height bm
      then map (\<lambda>k. data bm ! ((y * im_width bm + x) * 4 + k)) [0..<4]
      else [0, 0, 0, 0])"

definition getImageData :: "ImageData \<Rightarrow> nat \<Rightarrow> nat \<Rightarrow> dom_error + ImageData" where
  "getImageData ctx w h =
     (if w = 0 \<or> h = 0 then Inl IndexSizeError
      else Inr \<lparr>im_width = w, im_height = h,
                 data = concat (map (\<lambda>p. pixel_bytes ctx (p mod w) (p div w)) [0..<w * h])\<rparr>)"

definition createImageData :: "nat \<Rightarrow> nat \<Rightarrow> dom_error + ImageData" where
  "createImageData w h =
     (if w = 0 \<or> h = 0 then Inl IndexSizeError
      else Inr \<lparr>im_width = w, im_height = h, data = replicate (w * h * 4) 0\<rparr>)"

definition putImageData :: "ImageData \<Rightarrow> ImageData \<Rightarrow> ImageData" where
  "putImageData ctx img =
     ctx\<lparr>data := concat (map (\<lambda>p. let x = p mod im_width ctx; y = p div im_width ctx in
                                   if x < im_width img \<and> y < im_height img
                                   then pixel_bytes img x y else pixel_bytes ctx x y)
                            [0..<im_width ctx * im_height ctx])\<rparr>"

text \<open>
  The two arrays of the loop nest: \<open>src\<close> is \<^verbatim>\<open>imageData.data\<close>, \<open>dst\<close> is
  \<^verbatim>\<open>output.data\<close>. Every step of the loops takes the pair and returns it updated.
\<close>

record buffers =
  src :: "u8 list"
  dst :: "u8 list"

text \<open>The body of the innermost loop (one kernel tap) on the accumulators \<open>(r, g, b)\<close>.\<close>

definition in_bounds :: "nat \<Rightarrow> nat \<Rightarrow> int \<Rightarrow> int \<Rightarrow> bool" where
  "in_bounds sw sh scy scx \<longleftrightarrow> scy \<ge> 0 \<and> scy < int sh \<and> scx \<ge> 0 \<and> scx < int sw"

definition tap_weighted :: "u8 list \<Rightarrow> nat \<Rightarrow> int list \<Rightarrow> nat \<Rightarrow> int \<Rightarrow> int \<Rightarrow> nat \<Rightarrow> nat
    \<Rightarrow> number \<times> number \<times> number" where
  "tap_weighted s sw kern side scy scx cy cx =
     (let srcOff = nat ((scy * int sw + scx) * 4);
          wt = array_get kern (cy * side + cx)
      in (num_mul (bytes_get s srcOff) wt,
          num_mul (bytes_get s (srcOff + 1)) wt,
          num_mul (bytes_get s (srcOff + 2)) wt))"

definition add3 :: "number \<times> number \<times> number \<Rightarrow> number \<times> number \<times> number
    \<Rightarrow> number \<times> number \<times> number" where
  "add3 acc t = (case acc of (r, g, b) \<Rightarrow> (case t of (tr, tg, tb) \<Rightarrow>
     (num_add r tr, num_add g tg, num_add b tb)))"

definition tap :: "u8 list \<Rightarrow> nat \<Rightarrow> nat \<Rightarrow> int list \<Rightarrow> nat \<Rightarrow> nat \<Rightarrow> nat \<Rightarrow> nat \<Rightarrow> nat \<Rightarrow> nat
    \<Rightarrow> number \<times> number \<times> number \<Rightarrow> number \<times> number \<times> number" where
  "tap s sw sh kern side halfSide sy sx cy cx acc =
     (let scy = int sy + int cy - int halfSide;
          scx = int sx + int cx - int halfSide
      in if in_bounds sw sh scy scx
         then add3 acc (tap_weighted s sw kern side scy scx cy cx)
         else acc)"

text \<open>The two kernel loops for the destination pixel \<open>(x, y)\<close>, from \<open>r = g = b = 0\<close>.\<close>

definition kernel_sums :: "u8 list \<Rightarrow> nat \<Rightarrow> nat \<Rightarrow> int list \<Rightarrow> nat \<Rightarrow> nat \<Rightarrow> nat \<Rightarrow> nat
    \<Rightarrow> number \<times> number \<times> number" where
  "kernel_sums s sw sh kern side halfSide y x =
     fold (\<lambda>cy. fold (\<lambda>cx. tap s sw sh kern side halfSide y x cy cx) [0..<side])
       [0..<side] (Some 0, Some 0, Some 0)"

text \<open>The body of the \<open>x\<close> loop: the kernel loops, then the four stores into \<open>dst\<close>.\<close>

definition conv_pixel :: "nat \<Rightarrow> nat \<Rightarrow> int list \<Rightarrow> nat \<Rightarrow> nat \<Rightarrow> nat \<Rightarrow> nat \<Rightarrow> buffers \<Rightarrow> buffers" where
  "conv_pixel sw sh kern side halfSide y x st =
     (let dstOff = (y * sw + x) * 4 in
      case kernel_sums (src st) sw sh kern side halfSide y x of (r, g, b) \<Rightarrow>
        st\<lparr>dst := (dst st)[dstOff := toUint8Clamp r,
                             dstOff + 1 := toUint8Clamp g,
                             dstOff + 2 := toUint8Clamp b,
                             dstOff + 3 := toUint8Clamp (bytes_get (src st) (dstOff + 3))]\<rparr>)"

definition conv_loops :: "nat \<Rightarrow> nat \<Rightarrow> int list \<Rightarrow> buffers \<Rightarrow> buffers" where
  "conv_loops sw sh kern st =
     (let side = round_sqrt (length kern);
          halfSide = side div 2
      in fold (\<lambda>y. fold (\<lambda>x. conv_pixel sw sh kern side halfSide y x) [0..<sw]) [0..<sh] st)"

text \<open>
  \<open>applyConvolution\<close>: read the image, allocate the output, run the loops, write the
  output back. The result is the context's bitmap afterwards, or the exception thrown.
\<close>

definition convolution_pass :: "ImageData \<Rightarrow> ImageData \<Rightarrow> int list \<Rightarrow> buffers" where
  "convolution_pass imageData output kern =
     conv_loops (im_width imageData) (im_height imageData) kern
       \<lparr>src = data imageData, dst = data output\<rparr>"

definition applyConvolution :: "ImageData \<Rightarrow> nat \<Rightarrow> nat \<Rightarrow> int list \<Rightarrow> dom_error + ImageData" where
  "applyConvolution ctx w h kern =
     (case getImageData ctx w h of
        Inl e \<Rightarrow> Inl e
      | Inr imageData \<Rightarrow>
          (case createImageData w h of
             Inl e \<Rightarrow> Inl e
           | Inr output \<Rightarrow>
               Inr (putImageData ctx
                      (output\<lparr>data := dst (convolution_pass imageData output kern)\<rparr>))))"

text \<open>
  The four bytes the loop body stores for the destination pixel \<open>(x, y)\<close>, and the kernel
  of side \<open>side\<close> that is zero everywhere but for a weight 1 at its centre
  \<open>(halfSide, halfSide)\<close>.
\<close>

definition out_pixel :: "u8 list \<Rightarrow> nat \<Rightarrow> nat \<Rightarrow> int list \<Rightarrow> nat \<Rightarrow> nat \<Rightarrow> nat \<Rightarrow> nat \<Rightarrow> u8 list" where
  "out_pixel s sw sh kern side halfSide y x =
     (case kernel_sums s sw sh kern side halfSide y x of (r, g, b) \<Rightarrow>
        [toUint8Clamp r, toUint8Clamp g, toUint8Clamp b,
         toUint8Clamp (bytes_get s ((y * sw + x) * 4 + 3))])"

definition identity_kernel :: "nat \<Rightarrow> int list" where
  "identity_kernel side = (replicate (side * side) 0)[(side div 2) * side + side div 2 := 1]"

section \<open>The 2D canvas, in exact arithmetic\<close>

text \<open>
  Drawing with a fractional opacity, a blend mode or a filter is defined by the Canvas,
  Compositing and Filter Effects specifications on colour values in \<open>[0, 1]\<close>; how a
  browser rounds the results into its 8-bit bitmap is left to the implementation. The model
  keeps the exact values: a pixel is four rationals, the colour not premultiplied.
\<close>

record rgba =
  red :: rat
  green :: rat
  blue :: rat
  alpha :: rat

definition transparent :: rgba where
  "transparent = \<lparr>red = 0, green = 0, blue = 0, alpha = 0\<rparr>"

datatype composite_op = SourceOver | Overlay | SoftLight

datatype filter_fn = Contrast rat | Saturate rat

record canvas =
  width :: nat
  height :: nat
  bitmap :: "rgba list"
  context2d :: bool
  globalAlpha :: rat
  globalCompositeOperation :: composite_op
  fillStyle :: rgba
  ctx_filter :: "filter_fn list"

text \<open>
  \<open>context2d\<close> says whether \<^verbatim>\<open>getContext('2d')\<close> returns a context (it returns
  \<^verbatim>\<open>null\<close> for a canvas bound to another context type). A pixel read beyond the
  bitmap is transparent black.
\<close>

definition pixel_at :: "rgba list \<Rightarrow> nat \<Rightarrow> rgba" where
  "pixel_at px i = (if i < length px then px ! i else transparent)"

subsection \<open>Blending and compositing of one pixel\<close>

definition multiply :: "rat \<Rightarrow> rat \<Rightarrow> rat" where
  "multiply cb cs = cb * cs"

definition screen :: "rat \<Rightarrow> rat \<Rightarrow> rat" where
  "screen cb cs = cb + cs - cb * cs"

definition hard_light :: "rat \<Rightarrow> rat \<Rightarrow> rat" where
  "hard_light cb cs = (if cs \<le> 1 / 2 then multiply cb (2 * cs) else screen cb (2 * cs - 1))"

definition overlay :: "rat \<Rightarrow> rat \<Rightarrow> rat" where
  "overlay cb cs = hard_light cs cb"

text \<open>
  Soft light takes a square root of the backdrop where it is above a quarter; the square
  root the browser computes is the parameter \<open>sq\<close>.
\<close>

definition soft_light :: "(rat \<Rightarrow> rat) \<Rightarrow> rat \<Rightarrow> rat \<Rightarrow> rat" where
  "soft_light sq cb cs =
     (if cs \<le> 1 / 2 then cb - (1 - 2 * cs) * cb * (1 - cb)
      else cb + (2 * cs - 1) *
             ((if cb \<le> 1 / 4 then ((16 * cb - 12) * cb + 4) * cb else sq cb) - cb))"

fun blend :: "(rat \<Rightarrow> rat) \<Rightarrow> composite_op \<Rightarrow> rat \<Rightarrow> rat \<Rightarrow> rat" where
  "blend sq SourceOver cb cs = cs"
| "blend sq Overlay cb cs = overlay cb cs"
| "blend sq SoftLight cb cs = soft_light sq cb cs"

text \<open>
  One colour channel of the result of compositing a source over a backdrop: the source
  colour is first mixed with the blended colour by the backdrop's alpha, then composited
  source-over; \<open>ao\<close> is the alpha of the result.
\<close>

definition composite_channel :: "(rat \<Rightarrow> rat) \<Rightarrow> composite_op \<Rightarrow> rat \<Rightarrow> rat \<Rightarrow> rat \<Rightarrow> rat \<Rightarrow> rat \<Rightarrow> rat" where
  "composite_channel sq op as ab ao cs cb =
     (as * ((1 - ab) * cs + ab * blend sq op cb cs) + (1 - as) * ab * cb) / ao"

definition composite :: "(rat \<Rightarrow> rat) \<Rightarrow> composite_op \<Rightarrow> rgba \<Rightarrow> rgba \<Rightarrow> rgba" where
  "composite sq op s b =
     (let as = alpha s; ab = alpha b; ao = as + ab * (1 - as)
      in if ao = 0 then transparent
         else \<lparr>red = composite_channel sq op as ab ao (red s) (red b),
               green = composite_channel sq op as ab ao (green s) (green b),
               blue = composite_channel sq op as ab ao (blue s) (blue b),
               alpha = ao\<rparr>)"

subsection \<open>Filters\<close>

definition clamp01 :: "rat \<Rightarrow> rat" where
  "clamp01 v = max 0 (min 1 v)"

fun apply_filter :: "filter_fn \<Rightarrow> rgba \<Rightarrow> rgba" where
  "apply_filter (Contrast a) p =
     p\<lparr>red := clamp01 (a * red p - a / 2 + 1 / 2),
       green := clamp01 (a * green p - a / 2 + 1 / 2),
       blue := clamp01 (a * blue p - a / 2 + 1 / 2)\<rparr>"
| "apply_filter (Saturate s) p =
     p\<lparr>red := clamp01 ((213 / 1000 + 787 / 1000 * s) * red p + (715 / 1000 - 715 / 1000 * s) * green p
                      + (72 / 1000 - 72 / 1000 * s) * blue p),
       green := clamp01 ((213 / 1000 - 213 / 1000 * s) * red p + (715 / 1000 + 285 / 1000 * s) * green p
                      + (72 / 1000 - 72 / 1000 * s) * blue p),
       blue := clamp01 ((213 / 1000 - 213 / 1000 * s) * red p + (715 / 1000 - 715 / 1000 * s) * green p
                      + (72 / 1000 + 928 / 1000 * s) * blue p)\<rparr>"

definition apply_filters :: "filter_fn list \<Rightarrow> rgba \<Rightarrow> rgba" where
  "apply_filters fs p = fold apply_filter fs p"

subsection \<open>Drawing operations\<close>

text \<open>
  Every drawing operation renders its source, passes it through the current filter,
  multiplies its alpha by \<open>globalAlpha\<close> and composites it onto the bitmap with the
  current operator.
\<close>

definition draw_pixel :: "(rat \<Rightarrow> rat) \<Rightarrow> canvas \<Rightarrow> rgba \<Rightarrow> rgba \<Rightarrow> rgba" where
  "draw_pixel sq ctx s b =
     (let f = apply_filters (ctx_filter ctx) s
      in composite sq (globalCompositeOperation ctx) (f\<lparr>alpha := alpha f * globalAlpha ctx\<rparr>) b)"

text \<open>An image of \<open>iw \<times> ih\<close> pixels drawn at the origin, unscaled.\<close>

definition draw_at_origin :: "(rat \<Rightarrow> rat) \<Rightarrow> canvas \<Rightarrow> nat \<Rightarrow> nat \<Rightarrow> rgba list \<Rightarrow> canvas" where
  "draw_at_origin sq ctx iw ih px =
     ctx\<lparr>bitmap := map (\<lambda>p. let x = p mod width ctx; y = p div width ctx in
                            if x < iw \<and> y < ih
                            then draw_pixel sq ctx (pixel_at px (y * iw + x)) (pixel_at (bitmap ctx) p)
                            else pixel_at (bitmap ctx) p)
                     [0..<width ctx * height ctx]\<rparr>"

text \<open>
  \<^verbatim>\<open>ctx.drawImage(canvas, 0, 0)\<close> throws \<^verbatim>\<open>InvalidStateError\<close> for a source canvas
  with a zero dimension.
\<close>

definition drawImage_canvas :: "(rat \<Rightarrow> rat) \<Rightarrow> canvas \<Rightarrow> canvas \<Rightarrow> dom_error + canvas" where
  "drawImage_canvas sq ctx source =
     (if width source = 0 \<or> height source = 0 then Inl InvalidStateError
      else Inr (draw_at_origin sq ctx (width source) (height source) (bitmap source)))"

text \<open>
  The video element: its intrinsic size and, for each moment at which the code samples
  it, the frame it shows then (of that size). A frame of the camera has no alpha: its
  pixels are three colour values and are drawn opaque. A video without frame data has
  size zero and draws nothing. \<^verbatim>\<open>drawImage(video, 0, 0, w, h)\<close> is called with the
  video's own size, so the frame is not scaled.
\<close>

type_synonym rgb = "rat \<times> rat \<times> rat"

definition opaque :: "rgb \<Rightarrow> rgba" where
  "opaque c = (case c of (r, g, b) \<Rightarrow> \<lparr>red = r, green = g, blue = b, alpha = 1\<rparr>)"

record video =
  videoWidth :: nat
  videoHeight :: nat
  frames :: "nat \<Rightarrow> rgb list"

definition drawImage_video :: "(rat \<Rightarrow> rat) \<Rightarrow> canvas \<Rightarrow> video \<Rightarrow> nat \<Rightarrow> canvas" where
  "drawImage_video sq ctx v t =
     (if videoWidth v = 0 \<or> videoHeight v = 0 then ctx
      else draw_at_origin sq ctx (videoWidth v) (videoHeight v) (map opaque (frames v t)))"

definition fillRect :: "(rat \<Rightarrow> rat) \<Rightarrow> canvas \<Rightarrow> nat \<Rightarrow> nat \<Rightarrow> canvas" where
  "fillRect sq ctx w h = draw_at_origin sq ctx w h (replicate (w * h) (fillStyle ctx))"

definition clearRect :: "canvas \<Rightarrow> nat \<Rightarrow> nat \<Rightarrow> canvas" where
  "clearRect ctx w h =
     ctx\<lparr>bitmap := map (\<lambda>p. if p mod width ctx < w \<and> p div width ctx < h then transparent
                            else pixel_at (bitmap ctx) p)
                     [0..<width ctx * height ctx]\<rparr>"

text \<open>
  Assigning \<^verbatim>\<open>canvas.width\<close> or \<^verbatim>\<open>canvas.height\<close> clears the bitmap to transparent
  black at the new size and resets the drawing state to its defaults.
\<close>

definition reset_state :: "canvas \<Rightarrow> canvas" where
  "reset_state c =
     c\<lparr>globalAlpha := 1, globalCompositeOperation := SourceOver,
       fillStyle := \<lparr>red = 0, green = 0, blue = 0, alpha = 1\<rparr>, ctx_filter := []\<rparr>"

definition set_width :: "canvas \<Rightarrow> nat \<Rightarrow> canvas" where
  "set_width c w = reset_state (c\<lparr>width := w, bitmap := replicate (w * height c) transparent\<rparr>)"

definition set_height :: "canvas \<Rightarrow> nat \<Rightarrow> canvas" where
  "set_height c h = reset_state (c\<lparr>height := h, bitmap := replicate (width c * h) transparent\<rparr>)"

text \<open>\<^verbatim>\<open>document.createElement('canvas')\<close>: 300 by 150, transparent, a 2D context at hand.\<close>

definition createElement_canvas :: canvas where
  "createElement_canvas =
     reset_state \<lparr>width = 300, height = 150, bitmap = replicate (300 * 150) transparent,
       context2d = True, globalAlpha = 1, globalCompositeOperation = SourceOver,
       fillStyle = transparent, ctx_filter = []\<rparr>"

text \<open>
  \<^verbatim>\<open>canvas.toDataURL('image/jpeg', 0.95)\<close>: the JPEG encoder is the parameter \<open>enc\<close>,
  giving the base64 payload; a canvas without pixels gives \<^verbatim>\<open>data:,\<close>.
\<close>

definition toDataURL :: "(nat \<Rightarrow> nat \<Rightarrow> rgba list \<Rightarrow> string) \<Rightarrow> canvas \<Rightarrow> string" where
  "toDataURL enc c =
     (if width c = 0 \<or> height c = 0 then ''data:,''
      else ''data:image/jpeg;base64,'' @ enc (width c) (height c) (bitmap c))"

section \<open>processSonyLook\<close>

text \<open>The sharpening kernel that \<open>processSonyLook\<close> declares (and does not use).\<close>

definition sharpenKernel :: "int list" where
  "sharpenKernel = [0, -1, 0, -1, 5, -1, 0, -1, 0]"

definition blue_tint :: rgba where
  "blue_tint = \<lparr>red = 0, green = 0, blue = 20 / 255, alpha = 1 / 10\<rparr>"

definition orange_tint :: rgba where
  "orange_tint = \<lparr>red = 1, green = 150 / 255, blue = 50 / 255, alpha = 15 / 100\<rparr>"

definition look_filter :: "filter_fn list" where
  "look_filter = [Contrast (115 / 100), Saturate (11 / 10)]"

text \<open>
  The two tint passes (the \<^verbatim>\<open>overlay\<close> fill and the \<^verbatim>\<open>soft-light\<close> fill), on the
  context that holds the redrawn original.
\<close>

definition tint_passes :: "(rat \<Rightarrow> rat) \<Rightarrow> canvas \<Rightarrow> nat \<Rightarrow> nat \<Rightarrow> canvas" where
  "tint_passes sq ctx w h =
     (let c1 = fillRect sq (ctx\<lparr>globalCompositeOperation := Overlay, fillStyle := blue_tint\<rparr>) w h
      in fillRect sq (c1\<lparr>globalCompositeOperation := SoftLight, fillStyle := orange_tint\<rparr>) w h)"

text \<open>
  \<open>processSonyLook\<close>: copy the canvas to a temporary canvas, clear the canvas, draw the
  copy back, run the two tint passes, then set the filter and draw the temporary canvas
  (the copy of the original) once more. The result is the canvas afterwards, or the
  exception a \<^verbatim>\<open>drawImage\<close> threw. The browser modelled is one that supports
  \<^verbatim>\<open>ctx.filter\<close>; in one that does not, the last \<^verbatim>\<open>drawImage\<close> draws the copy
  unfiltered.
\<close>

definition processSonyLook :: "(rat \<Rightarrow> rat) \<Rightarrow> canvas \<Rightarrow> dom_error + canvas" where
  "processSonyLook sq cnv =
     (if \<not> context2d cnv then Inr cnv
      else
        let w = width cnv; h = height cnv;
            tempCanvas = set_height (set_width createElement_canvas w) h
        in if \<not> context2d tempCanvas then Inr cnv
           else
             (case drawImage_canvas sq tempCanvas cnv of
                Inl e \<Rightarrow> Inl e
              | Inr temp \<Rightarrow>
                  (case drawImage_canvas sq (clearRect cnv w h) temp of
                     Inl e \<Rightarrow> Inl e
                   | Inr c1 \<Rightarrow>
                       let c2 = tint_passes sq c1 w h;
                           c3 = c2\<lparr>globalCompositeOperation := SourceOver, ctx_filter := look_filter\<rparr>
                       in (case drawImage_canvas sq c3 temp of
                             Inl e \<Rightarrow> Inl e
                           | Inr c4 \<Rightarrow> Inr (c4\<lparr>ctx_filter := []\<rparr>)))))"

text \<open>
  An example: the canvas of one opaque dark grey pixel, rgb(51, 51, 51), as it is after
  the canvas was sized and a frame was drawn.
\<close>

definition grey_pixel :: rgba where
  "grey_pixel = \<lparr>red = 1 / 5, green = 1 / 5, blue = 1 / 5, alpha = 1\<rparr>"

definition grey_canvas :: canvas where
  "grey_canvas =
     \<lparr>width = 1, height = 1, bitmap = [grey_pixel], context2d = True, globalAlpha = 1,
      globalCompositeOperation = SourceOver,
      fillStyle = \<lparr>red = 0, green = 0, blue = 0, alpha = 1\<rparr>, ctx_filter = []\<rparr>"

section \<open>performStacking\<close>

datatype capture_error = NoCanvasContext | DOMException dom_error

text \<open>The loop over the frames: iteration \<open>i\<close> sets the opacity and draws the current frame.\<close>

function stack_loop :: "(rat \<Rightarrow> rat) \<Rightarrow> video \<Rightarrow> nat \<Rightarrow> nat \<Rightarrow> canvas \<Rightarrow> canvas" where
  "stack_loop sq v n i ctx =
     (if i < n
      then stack_loop sq v n (Suc i)
             (drawImage_video sq (ctx\<lparr>globalAlpha := 1 / (of_nat i + 1)\<rparr>) v i)
      else ctx)"
  by pat_completeness auto
termination
  by (relation "measure (\<lambda>(sq, v, n, i, ctx). n - i)") auto

declare stack_loop.simps [simp del]

definition frameCount :: nat where
  "frameCount = 4"

text \<open>
  The accumulator after the first \<open>n\<close> iterations: the canvas sized to the video and
  cleared, then \<open>n\<close> frames drawn. The canvas handed to the look is the accumulator
  after all iterations, its opacity set back to 1.
\<close>

definition accumulator :: "(rat \<Rightarrow> rat) \<Rightarrow> video \<Rightarrow> canvas \<Rightarrow> nat \<Rightarrow> canvas" where
  "accumulator sq v cnv n =
     (let w = videoWidth v; h = videoHeight v
      in stack_loop sq v n 0 (clearRect (set_height (set_width cnv w) h) w h))"

definition stacked :: "(rat \<Rightarrow> rat) \<Rightarrow> video \<Rightarrow> canvas \<Rightarrow> nat \<Rightarrow> canvas" where
  "stacked sq v cnv n = (accumulator sq v cnv n)\<lparr>globalAlpha := 1\<rparr>"

text \<open>The plain arithmetic mean of a list of colours, channel by channel.\<close>

definition arithmetic_mean :: "rgb list \<Rightarrow> rgb" where
  "arithmetic_mean cs =
     (sum_list (map fst cs) / of_nat (length cs),
      sum_list (map (\<lambda>c. fst (snd c)) cs) / of_nat (length cs),
      sum_list (map (\<lambda>c. snd (snd c)) cs) / of_nat (length cs))"

definition performStacking :: "(rat \<Rightarrow> rat) \<Rightarrow> (nat \<Rightarrow> nat \<Rightarrow> rgba list \<Rightarrow> string) \<Rightarrow> video \<Rightarrow> canvas
    \<Rightarrow> capture_error + canvas \<times> string" where
  "performStacking sq enc v cnv =
     (if \<not> context2d cnv then Inl NoCanvasContext
      else
        (case processSonyLook sq (stacked sq v cnv frameCount) of
           Inl e \<Rightarrow> Inl (DOMException e)
         | Inr c \<Rightarrow> Inr (c, toDataURL enc c)))"

text \<open>
  An example: a video of one pixel whose red channel rises from frame to frame,
  0, 1/5, 2/5, 3/5, ...
\<close>

definition ramp_video :: video where
  "ramp_video = \<lparr>videoWidth = 1, videoHeight = 1, frames = (\<lambda>t. [(of_nat t / 5, 0, 1)])\<rparr>"

section \<open>The application state and handleCapture\<close>

datatype CameraMode = PHOTO | VIDEO | PRO

record CameraSettings =
  iso :: nat
  shutterSpeed :: string
  aperture :: string
  wb :: string
  ev :: string

text \<open>The metadata of a photo is the spread settings together with the mode.\<close>

record CapturedImage =
  photo_id :: string
  url :: string
  timestamp :: nat
  photo_width :: nat
  photo_height :: nat
  isEnhanced :: bool
  metadata :: "CameraSettings \<times> CameraMode"

text \<open>
  The component's state variables and its two refs (\<open>None\<close> is a \<^verbatim>\<open>null\<close> ref). The
  video of \<open>videoRef\<close> carries the frames it shows while a capture samples it.
\<close>

record app =
  mode :: CameraMode
  isCapturing :: bool
  photos :: "CapturedImage list"
  settings :: CameraSettings
  isAnalyzing :: bool
  aiAnalysis :: "string option"
  videoRef :: "video option"
  canvasRef :: "canvas option"

text \<open>\<^verbatim>\<open>Date.now().toString()\<close>: the decimal digits of the time in milliseconds.\<close>

function nat_to_string :: "nat \<Rightarrow> string" where
  "nat_to_string n =
     (if n < 10 then [char_of (48 + n)]
      else nat_to_string (n div 10) @ [char_of (48 + n mod 10)])"
  by pat_completeness auto
termination
  by (relation "measure id") auto

declare nat_to_string.simps [simp del]

text \<open>
  \<open>handleCapture\<close> is asynchronous, and it is a closure of the render that created
  it: the \<open>isCapturing\<close>, \<open>mode\<close> and \<open>settings\<close> it reads are the values of that
  render, \<open>snap\<close>, while the refs and the state it updates are the current ones, \<open>s\<close>.
  \<^verbatim>\<open>setIsCapturing(true)\<close> changes the current state and only schedules the next
  render; until React has rendered again, a request still reaches the handler of the
  render before.

  Its first part runs when the request is made: the guard, which returns at once (the
  request is dropped: nothing is changed, nothing is reported), and
  \<^verbatim>\<open>setIsCapturing(true)\<close>. Its second part runs the pipeline and ends the capture.
\<close>

datatype request = Dropped | Accepted

definition handleCapture_begin :: "app \<Rightarrow> app \<Rightarrow> app \<times> request" where
  "handleCapture_begin snap s =
     (if videoRef s = None \<or> canvasRef s = None \<or> isCapturing snap then (s, Dropped)
      else (s\<lparr>isCapturing := True\<rparr>, Accepted))"

text \<open>The capture of the other modes: one frame, then the look.\<close>

definition normal_capture :: "(rat \<Rightarrow> rat) \<Rightarrow> (nat \<Rightarrow> nat \<Rightarrow> rgba list \<Rightarrow> string) \<Rightarrow> video \<Rightarrow> canvas
    \<Rightarrow> capture_error + canvas \<times> string" where
  "normal_capture sq enc v cnv =
     (let c = set_height (set_width cnv (videoWidth v)) (videoHeight v)
      in if context2d c
         then (case processSonyLook sq (drawImage_video sq c v 0) of
                 Inl e \<Rightarrow> Inl (DOMException e)
               | Inr c' \<Rightarrow> Inr (c', toDataURL enc c'))
         else Inr (c, []))"

definition capture_pipeline :: "(rat \<Rightarrow> rat) \<Rightarrow> (nat \<Rightarrow> nat \<Rightarrow> rgba list \<Rightarrow> string) \<Rightarrow> CameraMode \<Rightarrow> video
    \<Rightarrow> canvas \<Rightarrow> capture_error + canvas \<times> string" where
  "capture_pipeline sq enc m v cnv =
     (if m = PRO then performStacking sq enc v cnv else normal_capture sq enc v cnv)"

definition newPhoto :: "nat \<Rightarrow> nat \<Rightarrow> app \<Rightarrow> canvas \<Rightarrow> string \<Rightarrow> CapturedImage" where
  "newPhoto t1 t2 snap c dataUrl =
     \<lparr>photo_id = nat_to_string t1, url = dataUrl, timestamp = t2,
      photo_width = width c, photo_height = height c,
      isEnhanced = (mode snap = PRO), metadata = (settings snap, mode snap)\<rparr>"

text \<open>
  The \<^verbatim>\<open>try\<close> block with its \<^verbatim>\<open>catch\<close> and \<^verbatim>\<open>finally\<close>. \<open>snap\<close> is the render
  the handler was created in (it reads \<open>mode\<close> and \<open>settings\<close> from there), \<open>s\<close> the
  current state, with the refs; \<open>t1\<close> and \<open>t2\<close> are the two readings of the clock. A
  \<^verbatim>\<open>null\<close> ref inside the block raises a \<^verbatim>\<open>TypeError\<close>, which is caught like every
  exception of the pipeline.
\<close>

definition handleCapture_finish :: "(rat \<Rightarrow> rat) \<Rightarrow> (nat \<Rightarrow> nat \<Rightarrow> rgba list \<Rightarrow> string) \<Rightarrow> nat \<Rightarrow> nat
    \<Rightarrow> app \<Rightarrow> app \<Rightarrow> app" where
  "handleCapture_finish sq enc t1 t2 snap s =
     (case videoRef s of
        None \<Rightarrow> s\<lparr>isCapturing := False\<rparr>
      | Some v \<Rightarrow>
          (case canvasRef s of
             None \<Rightarrow> s\<lparr>isCapturing := False\<rparr>
           | Some cnv \<Rightarrow>
               (case capture_pipeline sq enc (mode snap) v cnv of
                  Inl e \<Rightarrow> s\<lparr>isCapturing := False\<rparr>
                | Inr (c, dataUrl) \<Rightarrow>
                    (if dataUrl \<noteq> []
                     then s\<lparr>photos := newPhoto t1 t2 snap c dataUrl # photos s,
                            canvasRef := Some c, isCapturing := False\<rparr>
                     else s\<lparr>canvasRef := Some c, isCapturing := False\<rparr>))))"

text \<open>A whole capture: the request through the handler of the render \<open>snap\<close>, run to its end.\<close>

definition handleCapture :: "(rat \<Rightarrow> rat) \<Rightarrow> (nat \<Rightarrow> nat \<Rightarrow> rgba list \<Rightarrow> string) \<Rightarrow> nat \<Rightarrow> nat
    \<Rightarrow> app \<Rightarrow> app \<Rightarrow> app" where
  "handleCapture sq enc t1 t2 snap s =
     (case handleCapture_begin snap s of
        (s', Dropped) \<Rightarrow> s'
      | (s', Accepted) \<Rightarrow> handleCapture_finish sq enc t1 t2 snap s')"

text \<open>
  A sequence of captures, each run to its end and rendered before the next is requested,
  so that each request goes through the handler of the current state. Before each one
  the user and the surroundings may have changed the mode, the settings and what the
  video shows.
\<close>

record capture_event =
  ev_mode :: CameraMode
  ev_settings :: CameraSettings
  ev_video :: video
  ev_t1 :: nat
  ev_t2 :: nat

definition before_capture :: "capture_event \<Rightarrow> app \<Rightarrow> app" where
  "before_capture e s =
     s\<lparr>mode := ev_mode e, settings := ev_settings e,
       videoRef := map_option (\<lambda>_. ev_video e) (videoRef s)\<rparr>"

definition capture_step :: "(rat \<Rightarrow> rat) \<Rightarrow> (nat \<Rightarrow> nat \<Rightarrow> rgba list \<Rightarrow> string) \<Rightarrow> capture_event \<Rightarrow> app \<Rightarrow> app" where
  "capture_step sq enc e s =
     handleCapture sq enc (ev_t1 e) (ev_t2 e) (before_capture e s) (before_capture e s)"

fun run_captures :: "(rat \<Rightarrow> rat) \<Rightarrow> (nat \<Rightarrow> nat \<Rightarrow> rgba list \<Rightarrow> string) \<Rightarrow> capture_event list \<Rightarrow> app \<Rightarrow> app" where
  "run_captures sq enc [] s = s"
| "run_captures sq enc (e # es) s = run_captures sq enc es (capture_step sq enc e s)"

text \<open>
  The artifact a capture completes with, if it does: the request is accepted, the
  pipeline returns and its data URL is not empty.
\<close>

definition artifact_of :: "(rat \<Rightarrow> rat) \<Rightarrow> (nat \<Rightarrow> nat \<Rightarrow> rgba list \<Rightarrow> string) \<Rightarrow> capture_event \<Rightarrow> app
    \<Rightarrow> CapturedImage option" where
  "artifact_of sq enc e s =
     (let s0 = before_capture e s in
      case (snd (handleCapture_begin s0 s0), videoRef s0, canvasRef s0) of
        (Accepted, Some v, Some cnv) \<Rightarrow>
          (case capture_pipeline sq enc (mode s0) v cnv of
             Inr (c, dataUrl) \<Rightarrow>
               (if dataUrl \<noteq> [] then Some (newPhoto (ev_t1 e) (ev_t2 e) s0 c dataUrl) else None)
           | Inl _ \<Rightarrow> None)
      | _ \<Rightarrow> None)"

text \<open>The artifacts of a sequence of captures, in the order the captures complete.\<close>

fun artifacts :: "(rat \<Rightarrow> rat) \<Rightarrow> (nat \<Rightarrow> nat \<Rightarrow> rgba list \<Rightarrow> string) \<Rightarrow> capture_event list \<Rightarrow> app
    \<Rightarrow> CapturedImage list" where
  "artifacts sq enc [] s = []"
| "artifacts sq enc (e # es) s =
     (case artifact_of sq enc e s of None \<Rightarrow> [] | Some p \<Rightarrow> [p])
       @ artifacts sq enc es (capture_step sq enc e s)"

text \<open>\<^verbatim>\<open>photos[0]?.url\<close>, the URL shown as the last photo.\<close>

definition lastPhotoUrl :: "app \<Rightarrow> string option" where
  "lastPhotoUrl s = (case photos s of [] \<Rightarrow> None | p # _ \<Rightarrow> Some (url p))"

text \<open>
  The state the component starts in, with both refs mounted: the default settings of the
  source, an example video and an example canvas.
\<close>

definition DEFAULT_SETTINGS :: CameraSettings where
  "DEFAULT_SETTINGS =
     \<lparr>iso = 100, shutterSpeed = ''1/250'', aperture = ''f/1.4'', wb = ''AWB'', ev = ''+0.0''\<rparr>"

definition initial_app :: app where
  "initial_app =
     \<lparr>mode = PHOTO, isCapturing = False, photos = [], settings = DEFAULT_SETTINGS,
      isAnalyzing = False, aiAnalysis = None,
      videoRef = Some ramp_video, canvasRef = Some grey_canvas\<rparr>"

section \<open>analyzeImageScene and handleAiAnalysis\<close>

datatype js_error = JsError string

text \<open>
  The SDK client: whether \<^verbatim>\<open>getGenerativeModel\<close> throws, and what \<^verbatim>\<open>generateContent\<close>
  does with the image data it is given (which is \<^verbatim>\<open>undefined\<close> when the URL has no
  comma): it throws, or it answers with a text that may be missing.
\<close>

record genai =
  getGenerativeModel :: "js_error option"
  generateContent :: "string option \<Rightarrow> js_error + string option"

fun split_on :: "char \<Rightarrow> string \<Rightarrow> string list" where
  "split_on c [] = [[]]"
| "split_on c (x # xs) =
     (if x = c then [] # split_on c xs
      else (case split_on c xs of [] \<Rightarrow> [[x]] | y # ys \<Rightarrow> (x # y) # ys))"

definition base64Data :: "string \<Rightarrow> string option" where
  "base64Data base64Image =
     (let parts = split_on (CHR '','') base64Image
      in if 1 < length parts then Some (parts ! 1) else None)"

definition try_catch :: "js_error + 'a \<Rightarrow> (js_error \<Rightarrow> js_error + 'a) \<Rightarrow> js_error + 'a" where
  "try_catch body handler = (case body of Inl e \<Rightarrow> handler e | Inr r \<Rightarrow> Inr r)"

definition analyzeImageScene :: "string \<Rightarrow> genai \<Rightarrow> string \<Rightarrow> js_error + string" where
  "analyzeImageScene apiKey ai base64Image =
     (if apiKey = [] then Inr ''API Key missing. AI features disabled.''
      else try_catch
             (case getGenerativeModel ai of
                Some e \<Rightarrow> Inl e
              | None \<Rightarrow>
                  (case generateContent ai (base64Data base64Image) of
                     Inl e \<Rightarrow> Inl e
                   | Inr response_text \<Rightarrow>
                       Inr (case response_text of
                              None \<Rightarrow> ''Analysis failed.''
                            | Some t \<Rightarrow> if t = [] then ''Analysis failed.'' else t)))
             (\<lambda>error. Inr ''Could not analyze scene.''))"

definition handleAiAnalysis :: "string \<Rightarrow> genai \<Rightarrow> app \<Rightarrow> CapturedImage \<Rightarrow> app" where
  "handleAiAnalysis apiKey ai s photo =
     (let s1 = s\<lparr>isAnalyzing := True, aiAnalysis := None\<rparr>
      in case analyzeImageScene apiKey ai (url photo) of
           Inr result \<Rightarrow> s1\<lparr>aiAnalysis := Some result, isAnalyzing := False\<rparr>
         | Inl e \<Rightarrow> s1\<lparr>aiAnalysis := Some ''AI Service Unavailable.'', isAnalyzing := False\<rparr>)"

section \<open>Properties of the convolution loops\<close>

lemma upd4_nth:
  "j < length d \<Longrightarrow>
   d[p * 4 := a, p * 4 + 1 := b, p * 4 + 2 := c, p * 4 + 3 := e] ! j =
     (if j div 4 = p then [a, b, c, e] ! (j mod 4) else d ! j)"
proof (cases "j div 4 = p")
  case False
  then have "j \<noteq> p * 4" "j \<noteq> p * 4 + 1" "j \<noteq> p * 4 + 2" "j \<noteq> p * 4 + 3" by auto
  then show ?thesis using False by simp
next
  case True
  assume len: "j < length d"
  have "j mod 4 = 0 \<or> j mod 4 = 1 \<or> j mod 4 = 2 \<or> j mod 4 = 3" by arith
  moreover have j: "j = p * 4 + j mod 4" using True by auto
  ultimately show ?thesis using True len
    by (elim disjE) (simp_all add: nth_list_update)
qed

lemma conv_pixel_src: "src (conv_pixel sw sh kern side hs y x st) = src st"
  by (simp add: conv_pixel_def Let_def split: prod.splits)

lemma conv_pixel_len: "length (dst (conv_pixel sw sh kern side hs y x st)) = length (dst st)"
  by (simp add: conv_pixel_def Let_def split: prod.splits)

lemma conv_pixel_nth:
  "j < length (dst st) \<Longrightarrow>
   dst (conv_pixel sw sh kern side hs y x st) ! j =
     (if j div 4 = y * sw + x then out_pixel (src st) sw sh kern side hs y x ! (j mod 4)
      else dst st ! j)"
  using upd4_nth [of j "dst st" "y * sw + x"]
  by (simp add: conv_pixel_def out_pixel_def Let_def split: prod.splits)

lemma row_src: "src (fold (\<lambda>x. conv_pixel sw sh kern side hs y x) xs st) = src st"
  by (induction xs arbitrary: st) (simp_all add: conv_pixel_src)

lemma row_len: "length (dst (fold (\<lambda>x. conv_pixel sw sh kern side hs y x) xs st)) = length (dst st)"
  by (induction xs arbitrary: st) (simp_all add: conv_pixel_len)

lemma row_nth:
  "j < length (dst st) \<Longrightarrow>
   dst (fold (\<lambda>x. conv_pixel sw sh kern side hs y x) [0..<n] st) ! j =
     (if y * sw \<le> j div 4 \<and> j div 4 < y * sw + n
      then out_pixel (src st) sw sh kern side hs y (j div 4 - y * sw) ! (j mod 4)
      else dst st ! j)"
proof (induction n)
  case 0
  then show ?case by auto
next
  case (Suc n)
  let ?st = "fold (\<lambda>x. conv_pixel sw sh kern side hs y x) [0..<n] st"
  have len: "j < length (dst ?st)" using Suc.prems by (simp add: row_len)
  have "dst (conv_pixel sw sh kern side hs y n ?st) ! j =
     (if j div 4 = y * sw + n then out_pixel (src st) sw sh kern side hs y n ! (j mod 4)
      else dst ?st ! j)"
    using conv_pixel_nth [OF len] by (simp add: row_src)
  then show ?case using Suc by (auto simp: less_Suc_eq)
qed

lemma rows_src:
  "src (fold (\<lambda>y. fold (\<lambda>x. conv_pixel sw sh kern side hs y x) [0..<sw]) ys st) = src st"
  by (induction ys arbitrary: st) (simp_all add: row_src)

lemma rows_len:
  "length (dst (fold (\<lambda>y. fold (\<lambda>x. conv_pixel sw sh kern side hs y x) [0..<sw]) ys st)) = length (dst st)"
  by (induction ys arbitrary: st) (simp_all add: row_len)

lemma rows_nth:
  "j < length (dst st) \<Longrightarrow>
   dst (fold (\<lambda>y. fold (\<lambda>x. conv_pixel sw sh kern side hs y x) [0..<sw]) [0..<m] st) ! j =
     (if j div 4 < m * sw
      then out_pixel (src st) sw sh kern side hs (j div 4 div sw) (j div 4 mod sw) ! (j mod 4)
      else dst st ! j)"
proof (induction m)
  case 0
  then show ?case by simp
next
  case (Suc m)
  let ?st = "fold (\<lambda>y. fold (\<lambda>x. conv_pixel sw sh kern side hs y x) [0..<sw]) [0..<m] st"
  have len: "j < length (dst ?st)" using Suc.prems by (simp add: rows_len)
  have step: "dst (fold (\<lambda>x. conv_pixel sw sh kern side hs m x) [0..<sw] ?st) ! j =
     (if m * sw \<le> j div 4 \<and> j div 4 < m * sw + sw
      then out_pixel (src st) sw sh kern side hs m (j div 4 - m * sw) ! (j mod 4)
      else dst ?st ! j)"
    using row_nth [OF len, of sw sh kern side hs m sw] by (simp add: rows_src)
  show ?case
  proof (cases "m * sw \<le> j div 4 \<and> j div 4 < m * sw + sw")
    case True
    then have "j div 4 div sw = m" 
      by (metis add.commute div_nat_eqI mult.commute mult_Suc_right)
    moreover have "j div 4 mod sw = j div 4 - m * sw"
      using True calculation by (metis minus_mult_div_eq_mod mult.commute)
    ultimately show ?thesis using True step by simp
  next
    case False
    then show ?thesis using step Suc by auto
  qed
qed


lemma fold_product:
  "fold (\<lambda>a. fold (\<lambda>b. f a b) ys) xs s = fold (\<lambda>(a, b). f a b) (List.product xs ys) s"
  by (induction xs arbitrary: s) (simp_all add: fold_map comp_def)

lemma fold_filter_skip:
  "fold (\<lambda>t acc. if P t then g t acc else acc) ts s = fold g (filter P ts) s"
  by (induction ts arbitrary: s) simp_all

lemma side_search_least:
  "k \<le> s \<Longrightarrow> n \<le> s * s + s \<Longrightarrow> (\<forall>j. k \<le> j \<and> j < s \<longrightarrow> j * j + j < n) \<Longrightarrow> side_search n k = s"
proof (induction "s - k" arbitrary: k)
  case 0
  then have "k = s" by simp
  then show ?case using "0.prems" by (subst side_search.simps) simp
next
  case (Suc d)
  then have lt: "k < s" by simp
  then have "k * k + k < n" using Suc.prems by simp
  moreover have "side_search n (Suc k) = s"
    using Suc.hyps(1) [of "Suc k"] Suc.hyps(2) Suc.prems lt by auto
  ultimately show ?case by (subst side_search.simps) simp
qed

lemma round_sqrt_square: "round_sqrt (s * s) = s"
proof -
  have "j * j + j < s * s" if "j < s" for j
  proof -
    have "j * Suc j \<le> j * s" using that by (intro mult_le_mono2) simp
    also have "j * s < s * s" using that by (intro mult_less_mono1) simp_all
    finally show ?thesis by simp
  qed
  then have "side_search (s * s) 0 = s" by (intro side_search_least) simp_all
  then show ?thesis by (simp only: round_sqrt_def)
qed

lemma side_search_spec:
  "side_search n k = s \<Longrightarrow> n \<le> s * s + s \<and> k \<le> s \<and> (\<forall>j. k \<le> j \<and> j < s \<longrightarrow> j * j + j < n)"
proof (induction n k arbitrary: s rule: side_search.induct)
  case (1 n k)
  show ?case
  proof (cases "n \<le> k * k + k")
    case True
    then have "s = k" using "1.prems" by (subst (asm) side_search.simps) simp
    then show ?thesis using True by simp
  next
    case False
    then have "side_search n (Suc k) = s" using "1.prems" by (subst (asm) side_search.simps) simp
    from "1.IH" [OF False this] False show ?thesis
      by (auto simp: not_le Suc_le_eq elim: less_SucE) (metis le_neq_implies_less)
  qed
qed

lemma round_sqrt_is_round: "int (round_sqrt n) = round (sqrt (real n))"
proof -
  define s where "s = round_sqrt n"
  have spec: "n \<le> s * s + s" "\<forall>j. j < s \<longrightarrow> j * j + j < n"
    using side_search_spec [of n 0 s] by (simp_all add: s_def round_sqrt_def)
  have up: "sqrt (real n) < real s + 1 / 2"
  proof (rule real_less_lsqrt)
    have "real n \<le> real (s * s + s)" using spec(1) by (simp only: of_nat_le_iff)
    also have "\<dots> < (real s + 1 / 2)\<^sup>2" by (simp add: power2_eq_square algebra_simps)
    finally show "real n < (real s + 1 / 2)\<^sup>2" .
  qed simp
  have low: "real s - 1 / 2 \<le> sqrt (real n)"
  proof (cases s)
    case 0
    have "0 \<le> sqrt (real n)" by simp
    then have "- (1 / 2) \<le> sqrt (real n)" by linarith
    then show ?thesis using 0 by simp
  next
    case (Suc j)
    then have "j * j + j < n" using spec(2) by simp
    then have "j * j + j + 1 \<le> n" by simp
    then have "real (j * j + j + 1) \<le> real n" by (simp only: of_nat_le_iff)
    moreover have "(real s - 1 / 2)\<^sup>2 \<le> real (j * j + j + 1)"
      by (simp add: Suc power2_eq_square algebra_simps)
    ultimately have "(real s - 1 / 2)\<^sup>2 \<le> real n" by linarith
    then show ?thesis by (rule real_le_rsqrt)
  qed
  have "\<lfloor>sqrt (real n) + 1 / 2\<rfloor> = int s"
    by (rule floor_unique) (use up low in simp_all)
  then show ?thesis by (simp add: round_def s_def)
qed



lemma kernel_sums_filter:
  "kernel_sums s sw sh kern side hs y x =
     fold (\<lambda>(cy, cx) acc. add3 acc (tap_weighted s sw kern side
              (int y + int cy - int hs) (int x + int cx - int hs) cy cx))
       (filter (\<lambda>(cy, cx). in_bounds sw sh (int y + int cy - int hs) (int x + int cx - int hs))
          (List.product [0..<side] [0..<side]))
       (Some 0, Some 0, Some 0)"
proof -
  have "kernel_sums s sw sh kern side hs y x =
      fold (\<lambda>(cy, cx). tap s sw sh kern side hs y x cy cx)
        (List.product [0..<side] [0..<side]) (Some 0, Some 0, Some 0)"
    by (simp add: kernel_sums_def fold_product)
  also have "(\<lambda>(cy, cx). tap s sw sh kern side hs y x cy cx) =
      (\<lambda>t acc. if (case t of (cy, cx) \<Rightarrow>
                      in_bounds sw sh (int y + int cy - int hs) (int x + int cx - int hs))
                then (case t of (cy, cx) \<Rightarrow> \<lambda>acc. add3 acc (tap_weighted s sw kern side
                        (int y + int cy - int hs) (int x + int cx - int hs) cy cx)) acc
                else acc)"
    by (auto simp: fun_eq_iff tap_def Let_def)
  finally show ?thesis by (simp only: fold_filter_skip)
qed

lemma fold_fixed: "(\<And>t. t \<in> set ts \<Longrightarrow> F t a = a) \<Longrightarrow> fold F ts a = a"
  by (induction ts) simp_all

lemma fold_single:
  assumes "distinct ts" and "c \<in> set ts"
    and fix0: "\<And>t. t \<in> set ts \<Longrightarrow> t \<noteq> c \<Longrightarrow> F t a0 = a0"
    and fix1: "\<And>t. t \<in> set ts \<Longrightarrow> t \<noteq> c \<Longrightarrow> F t (F c a0) = F c a0"
  shows "fold F ts a0 = F c a0"
proof -
  obtain pre post where ts: "ts = pre @ c # post"
    using assms(2) by (auto dest: split_list)
  then have "c \<notin> set pre" "c \<notin> set post" using assms(1) by auto
  then have "fold F pre a0 = a0" "fold F post (F c a0) = F c a0"
    using fix0 fix1 ts by (auto intro!: fold_fixed)
  then show ?thesis by (simp add: ts)
qed

lemma toUint8Clamp_byte: "toUint8Clamp (Some (uint w)) = (w :: u8)"
proof -
  have "uint w \<le> 255" using uint_bounded [of w] by simp
  then have "max 0 (min 255 (uint w)) = uint w" by simp
  then show ?thesis by (simp add: toUint8Clamp_def)
qed

lemma toUint8Clamp_get: "i < length a \<Longrightarrow> toUint8Clamp (bytes_get a i) = a ! i"
  by (simp add: bytes_get_def toUint8Clamp_byte)

lemma pixel_offset_bound:
  "x < sw \<Longrightarrow> y < sh \<Longrightarrow> (y * sw + x) * 4 + 3 < sw * sh * 4" for x y sw sh :: nat
proof -
  assume "x < sw" "y < sh"
  then have "y * sw + x < y * sw + sw" by simp
  also have "\<dots> = Suc y * sw" by simp
  also have "\<dots> \<le> sh * sw" using \<open>y < sh\<close> by (intro mult_le_mono1) simp
  finally have "y * sw + x < sw * sh" by (simp add: mult.commute)
  then show ?thesis by simp
qed

lemma identity_kernel_get:
  assumes "cy < side" "cx < side"
  shows "array_get (identity_kernel side) (cy * side + cx) =
           Some (if cy = side div 2 \<and> cx = side div 2 then 1 else 0)"
proof -
  have lt: "cy * side + cx < side * side"
  proof -
    have "cy * side + cx < cy * side + side" using assms by simp
    also have "\<dots> = Suc cy * side" by simp
    also have "\<dots> \<le> side * side" using assms by (intro mult_le_mono1) simp
    finally show ?thesis .
  qed
  have hs: "side div 2 < side" using assms by simp
  have inj: "cy * side + cx = (side div 2) * side + side div 2 \<longleftrightarrow> cy = side div 2 \<and> cx = side div 2"
  proof
    assume eq: "cy * side + cx = (side div 2) * side + side div 2"
    have "(cy * side + cx) div side = cy" "(cy * side + cx) mod side = cx" using assms by simp_all
    moreover have "((side div 2) * side + side div 2) div side = side div 2"
      "((side div 2) * side + side div 2) mod side = side div 2" using hs by simp_all
    ultimately show "cy = side div 2 \<and> cx = side div 2" using eq by metis
  qed simp
  show ?thesis using lt inj
    by (auto simp: array_get_def identity_kernel_def nth_list_update)
qed

lemma identity_sums:
  assumes len: "length s = sw * sh * 4" and x: "x < sw" and y: "y < sh" and side: "0 < side"
  shows "kernel_sums s sw sh (identity_kernel side) side (side div 2) y x =
           (bytes_get s ((y * sw + x) * 4), bytes_get s ((y * sw + x) * 4 + 1),
            bytes_get s ((y * sw + x) * 4 + 2))"
proof -
  let ?K = "identity_kernel side"
  let ?hs = "side div 2"
  let ?F = "\<lambda>(cy, cx). tap s sw sh ?K side ?hs y x cy cx"
  let ?ts = "List.product [0..<side] [0..<side]"
  let ?off = "(y * sw + x) * 4"
  have off: "?off + 3 < length s" using pixel_offset_bound [OF x y] len by simp
  have hs: "?hs < side" using side by simp
  have centre: "?F (?hs, ?hs) (Some 0, Some 0, Some 0) =
      (Some (uint (s ! ?off)), Some (uint (s ! (?off + 1))), Some (uint (s ! (?off + 2))))"
  proof -
    have "in_bounds sw sh (int y + int ?hs - int ?hs) (int x + int ?hs - int ?hs)"
      using x y by (simp add: in_bounds_def)
    moreover have "nat ((int y * int sw + int x) * 4) = ?off"
      by (simp add: nat_add_distrib nat_mult_distrib)
    ultimately show ?thesis using off identity_kernel_get [OF hs hs]
      by (simp add: tap_def tap_weighted_def add3_def num_add_def num_mul_def bytes_get_def Let_def)
  qed
  have other: "?F t (Some a, Some b, Some c) = (Some a, Some b, Some c)"
    if "t \<in> set ?ts" "t \<noteq> (?hs, ?hs)" for t a b c
  proof -
    obtain cy cx where t: "t = (cy, cx)" by (cases t)
    have c: "cy < side" "cx < side" "\<not> (cy = ?hs \<and> cx = ?hs)" using that t by auto
    show ?thesis
    proof (cases "in_bounds sw sh (int y + int cy - int ?hs) (int x + int cx - int ?hs)")
      case False
      then show ?thesis by (simp add: t tap_def Let_def)
    next
      case True
      define v where "v = nat (int y + int cy - int ?hs)"
      define u where "u = nat (int x + int cx - int ?hs)"
      have vu: "int y + int cy - int ?hs = int v" "int x + int cx - int ?hs = int u" "v < sh" "u < sw"
        using True by (auto simp: in_bounds_def v_def u_def)
      have "nat ((int v * int sw + int u) * 4) = (v * sw + u) * 4"
        by (simp add: nat_add_distrib nat_mult_distrib)
      moreover have "(v * sw + u) * 4 + 3 < length s"
        using pixel_offset_bound [OF vu(4) vu(3)] len by simp
      ultimately show ?thesis using True identity_kernel_get [OF c(1) c(2)] c(3)
        by (simp add: t tap_def tap_weighted_def add3_def num_add_def num_mul_def bytes_get_def
            Let_def vu(1,2))
    qed
  qed
  have single: "fold ?F ?ts (Some 0, Some 0, Some 0) = ?F (?hs, ?hs) (Some 0, Some 0, Some 0)"
  proof (rule fold_single)
    show "distinct ?ts" by (simp add: distinct_product)
    show "(?hs, ?hs) \<in> set ?ts" using hs by simp
    show "?F t (Some 0, Some 0, Some 0) = (Some 0, Some 0, Some 0)"
      if "t \<in> set ?ts" "t \<noteq> (?hs, ?hs)" for t using other [OF that] .
    show "?F t (?F (?hs, ?hs) (Some 0, Some 0, Some 0)) = ?F (?hs, ?hs) (Some 0, Some 0, Some 0)"
      if "t \<in> set ?ts" "t \<noteq> (?hs, ?hs)" for t unfolding centre using other [OF that] .
  qed
  have "kernel_sums s sw sh ?K side ?hs y x = fold ?F ?ts (Some 0, Some 0, Some 0)"
    by (simp add: kernel_sums_def fold_product)
  also note single
  also note centre
  also have "(Some (uint (s ! ?off)), Some (uint (s ! (?off + 1))), Some (uint (s ! (?off + 2)))) =
      (bytes_get s ?off, bytes_get s (?off + 1), bytes_get s (?off + 2))"
    using off by (simp add: bytes_get_def)
  finally show ?thesis .
qed

lemma identity_out_pixel:
  assumes len: "length s = sw * sh * 4" and x: "x < sw" and y: "y < sh" and side: "0 < side"
    and k: "k < 4"
  shows "out_pixel s sw sh (identity_kernel side) side (side div 2) y x ! k = s ! ((y * sw + x) * 4 + k)"
proof -
  have off: "(y * sw + x) * 4 + 3 < length s" using pixel_offset_bound [OF x y] len by simp
  have "k = 0 \<or> k = 1 \<or> k = 2 \<or> k = 3" using k by arith
  then show ?thesis using off
    by (elim disjE) (simp_all add: out_pixel_def identity_sums [OF len x y side] toUint8Clamp_get)
qed

lemma conv_loops_nth:
  "j < length (dst st) \<Longrightarrow>
   dst (conv_loops sw sh kern st) ! j =
     (if j div 4 < sh * sw
      then out_pixel (src st) sw sh kern (round_sqrt (length kern)) (round_sqrt (length kern) div 2)
             (j div 4 div sw) (j div 4 mod sw) ! (j mod 4)
      else dst st ! j)"
  by (simp add: conv_loops_def Let_def rows_nth)

lemma conv_loops_src: "src (conv_loops sw sh kern st) = src st"
  by (simp add: conv_loops_def Let_def rows_src)

lemma conv_loops_len: "length (dst (conv_loops sw sh kern st)) = length (dst st)"
  by (simp add: conv_loops_def Let_def rows_len)

lemma length_identity_kernel: "length (identity_kernel side) = side * side"
  by (simp add: identity_kernel_def)

lemma length_getImageData:
  "getImageData ctx w h = Inr img \<Longrightarrow>
     im_width img = w \<and> im_height img = h \<and> length (data img) = w * h * 4 \<and> 0 < w \<and> 0 < h"
proof -
  have "length (concat (map (\<lambda>p. pixel_bytes ctx (p mod w) (p div w)) ps)) = length ps * 4" for ps
    by (induction ps) (simp_all add: pixel_bytes_def)
  then show "getImageData ctx w h = Inr img \<Longrightarrow> ?thesis"
    by (auto simp: getImageData_def split: if_splits)
qed

lemma createImageData_Inr:
  "createImageData w h = Inr out \<Longrightarrow>
     im_width out = w \<and> im_height out = h \<and> data out = replicate (w * h * 4) 0"
  by (auto simp: createImageData_def split: if_splits)

lemma identity_pass:
  assumes "getImageData ctx w h = Inr imageData" and "createImageData w h = Inr output"
    and "0 < side"
  shows "dst (convolution_pass imageData output (identity_kernel side)) = data imageData"
proof (rule nth_equalityI)
  note g = length_getImageData [OF assms(1)] and c = createImageData_Inr [OF assms(2)]
  show len: "length (dst (convolution_pass imageData output (identity_kernel side))) = length (data imageData)"
    using g c by (simp add: convolution_pass_def conv_loops_len)
  fix j assume "j < length (dst (convolution_pass imageData output (identity_kernel side)))"
  then have j: "j < w * h * 4" using len g by simp
  then have p: "j div 4 < h * w" by (simp add: mult.commute less_mult_imp_div_less)
  then have xy: "j div 4 mod w < w" "j div 4 div w < h" using g 
    by (simp_all add: less_mult_imp_div_less)
  have "(j div 4 div w * w + j div 4 mod w) * 4 + j mod 4 = j" by simp
  moreover have "j mod 4 < 4" by simp
  ultimately show "dst (convolution_pass imageData output (identity_kernel side)) ! j = data imageData ! j"
    using j p g c identity_out_pixel [of "data imageData" w h "j div 4 mod w" "j div 4 div w" side "j mod 4"] xy assms(3)
    by (simp add: convolution_pass_def conv_loops_nth length_identity_kernel round_sqrt_square)
qed

section \<open>The claims about the convolution\<close>

lemma convolution_pass_pixel:
  assumes g: "getImageData ctx w h = Inr imageData" and c: "createImageData w h = Inr output"
    and x: "x < w" and y: "y < h" and k: "k < 4"
  shows "dst (convolution_pass imageData output kern) ! ((y * w + x) * 4 + k) =
           out_pixel (data imageData) w h kern (round_sqrt (length kern))
             (round_sqrt (length kern) div 2) y x ! k"
proof -
  note gi = length_getImageData [OF g] and ci = createImageData_Inr [OF c]
  let ?j = "(y * w + x) * 4 + k"
  have "?j < w * h * 4" using pixel_offset_bound [OF x y] k by simp
  moreover have "(p * 4 + k) div 4 = p" "(p * 4 + k) mod 4 = k" for p using k by simp_all
  then have "?j div 4 = y * w + x" "?j mod 4 = k" by blast+
  moreover have "y * w + x < h * w" using pixel_offset_bound [OF x y] by (simp add: mult.commute)
  moreover have "(y * w + x) div w = y" "(y * w + x) mod w = x" using x by simp_all
  ultimately show ?thesis using gi ci
    by (simp add: convolution_pass_def conv_loops_nth)
qed

lemma applyConvolution_Inr:
  assumes g: "getImageData ctx w h = Inr imageData" and c: "createImageData w h = Inr output"
  shows "applyConvolution ctx w h kern =
           Inr (putImageData ctx (output\<lparr>data := dst (convolution_pass imageData output kern)\<rparr>))"
  by (simp add: applyConvolution_def g c)

lemma length_pixel_bytes: "length (pixel_bytes bm x y) = 4"
  by (simp add: pixel_bytes_def)

lemma concat_blocks_length:
  assumes "\<And>q. length (f q) = 4"
  shows "length (concat (map f [0..<m])) = m * 4"
  by (induction m) (simp_all add: assms)

lemma concat_blocks_nth:
  assumes len: "\<And>q. length (f q) = 4" and p: "p < m" and k: "k < 4"
  shows "concat (map f [0..<m]) ! (p * 4 + k) = f p ! k"
  using p
proof (induction m)
  case 0
  then show ?case by simp
next
  case (Suc m)
  show ?case
  proof (cases "p < m")
    case True
    then have "p * 4 + k < m * 4" using k by simp
    then show ?thesis using Suc.IH [OF True]
      by (simp add: nth_append concat_blocks_length [of f, OF len])
  next
    case False
    then have "p = m" using Suc.prems by simp
    then show ?thesis using k
      by (simp add: nth_append concat_blocks_length [of f, OF len])
  qed
qed

text \<open>The bytes of the canvas after \<^verbatim>\<open>putImageData\<close>, where the image covers the pixel.\<close>

lemma putImageData_bytes:
  assumes x: "x < im_width ctx" and y: "y < im_height ctx"
    and xi: "x < im_width img" and yi: "y < im_height img" and k: "k < 4"
  shows "data (putImageData ctx img) ! ((y * im_width ctx + x) * 4 + k) =
           data img ! ((y * im_width img + x) * 4 + k)"
proof -
  let ?f = "\<lambda>p. let x = p mod im_width ctx; y = p div im_width ctx in
                  if x < im_width img \<and> y < im_height img
                  then pixel_bytes img x y else pixel_bytes ctx x y"
  have len: "length (?f q) = 4" for q by (simp add: Let_def length_pixel_bytes)
  have p: "y * im_width ctx + x < im_width ctx * im_height ctx"
    using pixel_offset_bound [OF x y] by simp
  have "data (putImageData ctx img) ! ((y * im_width ctx + x) * 4 + k) = ?f (y * im_width ctx + x) ! k"
    unfolding putImageData_def using concat_blocks_nth [of ?f, OF len p k] by simp
  also have "\<dots> = pixel_bytes img x y ! k" using x xi yi by (simp add: Let_def)
  also have "\<dots> = data img ! ((y * im_width img + x) * 4 + k)"
    using xi yi k by (simp add: pixel_bytes_def)
  finally show ?thesis .
qed

text \<open>A tap whose source coordinate lies outside the image leaves the three sums as they are.\<close>

lemma tap_outside:
  assumes "\<not> (0 \<le> int y + int cy - int hs \<and> int y + int cy - int hs < int sh
              \<and> 0 \<le> int x + int cx - int hs \<and> int x + int cx - int hs < int sw)"
  shows "tap s sw sh kern side hs y x cy cx acc = acc"
  using assms by (auto simp: tap_def in_bounds_def Let_def)

lemma kernel_sums_inside:
  "kernel_sums s sw sh kern side hs y x =
     fold (\<lambda>(cy, cx) acc. add3 acc (tap_weighted s sw kern side
              (int y + int cy - int hs) (int x + int cx - int hs) cy cx))
       (filter (\<lambda>(cy, cx). 0 \<le> int y + int cy - int hs \<and> int y + int cy - int hs < int sh
                           \<and> 0 \<le> int x + int cx - int hs \<and> int x + int cx - int hs < int sw)
          (List.product [0..<side] [0..<side]))
       (Some 0, Some 0, Some 0)"
proof -
  have "(\<lambda>(cy, cx). in_bounds sw sh (int y + int cy - int hs) (int x + int cx - int hs)) =
      (\<lambda>(cy, cx). 0 \<le> int y + int cy - int hs \<and> int y + int cy - int hs < int sh
                           \<and> 0 \<le> int x + int cx - int hs \<and> int x + int cx - int hs < int sw)"
    by (auto simp: fun_eq_iff in_bounds_def)
  then show ?thesis using kernel_sums_filter [of s sw sh kern side hs y x] by simp
qed

text \<open>
  Claim C4, as stated, fails: the convolution does change its input. What it is given
  is the canvas, and it writes its output back over the canvas's pixels; it returns
  nothing. Here the second pixel of the canvas, 10, 20, 30, is 0, 0, 0 afterwards.
\<close>
theorem applyConvolution_overwrites_the_canvas:
  "applyConvolution \<lparr>im_width = 2, im_height = 1, data = [255, 255, 255, 255, 10, 20, 30, 40]\<rparr> 2 1
       sharpenKernel =
     Inr \<lparr>im_width = 2, im_height = 1, data = [255, 255, 255, 255, 0, 0, 0, 40]\<rparr>
   \<and> data \<lparr>im_width = 2, im_height = 1, data = [255, 255, 255, 255, 0, 0, 0, 40 :: u8]\<rparr> \<noteq>
       data \<lparr>im_width = 2, im_height = 1, data = [255, 255, 255, 255, 10, 20, 30, 40 :: u8]\<rparr>"
  by code_simp

text \<open>
  Claim C4, amended. Where \<^verbatim>\<open>getImageData\<close> and \<^verbatim>\<open>createImageData\<close> succeed, the
  convolution reads the canvas into the array \<open>src\<close>, which it leaves as it was, and
  fills a separate output of the same width, height and length; then it writes the
  output over the canvas: every pixel of the canvas that the output covers holds the
  output's four bytes afterwards. For every destination pixel \<open>(x, y)\<close> the alpha byte is
  the source's alpha byte at the same position and the three colour bytes are the stored
  kernel sums. A tap whose source coordinate \<open>(x + cx - halfSide, y + cy - halfSide)\<close>
  lies outside \<open>[0, w) \<times> [0, h)\<close> leaves the sums as they are, and the sums run over
  exactly the taps whose source coordinate lies inside.
\<close>
theorem convolution_output:
  assumes g: "getImageData ctx w h = Inr imageData" and c: "createImageData w h = Inr output"
    and x: "x < w" and y: "y < h"
  shows "applyConvolution ctx w h kern =
           Inr (putImageData ctx (output\<lparr>data := dst (convolution_pass imageData output kern)\<rparr>))
       \<and> (x < im_width ctx \<and> y < im_height ctx \<longrightarrow>
            (\<forall>k<4. data (putImageData ctx (output\<lparr>data := dst (convolution_pass imageData output kern)\<rparr>))
                       ! ((y * im_width ctx + x) * 4 + k) =
                     dst (convolution_pass imageData output kern) ! ((y * w + x) * 4 + k)))
       \<and> src (convolution_pass imageData output kern) = data imageData
       \<and> im_width output = im_width imageData \<and> im_height output = im_height imageData
       \<and> length (dst (convolution_pass imageData output kern)) = length (data imageData)
       \<and> dst (convolution_pass imageData output kern) ! ((y * w + x) * 4 + 3) =
           data imageData ! ((y * w + x) * 4 + 3)
       \<and> (case kernel_sums (data imageData) w h kern (round_sqrt (length kern))
                  (round_sqrt (length kern) div 2) y x of
            (r, g, b) \<Rightarrow>
              dst (convolution_pass imageData output kern) ! ((y * w + x) * 4) = toUint8Clamp r
            \<and> dst (convolution_pass imageData output kern) ! ((y * w + x) * 4 + 1) = toUint8Clamp g
            \<and> dst (convolution_pass imageData output kern) ! ((y * w + x) * 4 + 2) = toUint8Clamp b)
       \<and> (\<forall>cy cx acc.
             \<not> (0 \<le> int y + int cy - int (round_sqrt (length kern) div 2)
                \<and> int y + int cy - int (round_sqrt (length kern) div 2) < int h
                \<and> 0 \<le> int x + int cx - int (round_sqrt (length kern) div 2)
                \<and> int x + int cx - int (round_sqrt (length kern) div 2) < int w) \<longrightarrow>
             tap (data imageData) w h kern (round_sqrt (length kern))
               (round_sqrt (length kern) div 2) y x cy cx acc = acc)
       \<and> kernel_sums (data imageData) w h kern (round_sqrt (length kern))
            (round_sqrt (length kern) div 2) y x =
           fold (\<lambda>(cy, cx) acc. add3 acc (tap_weighted (data imageData) w kern (round_sqrt (length kern))
                    (int y + int cy - int (round_sqrt (length kern) div 2))
                    (int x + int cx - int (round_sqrt (length kern) div 2)) cy cx))
             (filter (\<lambda>(cy, cx).
                        0 \<le> int y + int cy - int (round_sqrt (length kern) div 2)
                        \<and> int y + int cy - int (round_sqrt (length kern) div 2) < int h
                        \<and> 0 \<le> int x + int cx - int (round_sqrt (length kern) div 2)
                        \<and> int x + int cx - int (round_sqrt (length kern) div 2) < int w)
                (List.product [0..<round_sqrt (length kern)] [0..<round_sqrt (length kern)]))
             (Some 0, Some 0, Some 0)"
proof -
  note gi = length_getImageData [OF g] and ci = createImageData_Inr [OF c]
  let ?st = "convolution_pass imageData output kern"
  let ?off = "(y * w + x) * 4"
  let ?out = "output\<lparr>data := dst ?st\<rparr>"
  have px: "dst ?st ! (?off + k) =
      out_pixel (data imageData) w h kern (round_sqrt (length kern))
        (round_sqrt (length kern) div 2) y x ! k" if "k < 4" for k
    using convolution_pass_pixel [OF g c x y that] .
  have off: "?off + 3 < length (data imageData)" using pixel_offset_bound [OF x y] gi by simp
  have 1: "applyConvolution ctx w h kern = Inr (putImageData ctx ?out)"
    by (rule applyConvolution_Inr [OF g c])
  have 2: "x < im_width ctx \<and> y < im_height ctx \<longrightarrow>
      (\<forall>k<4. data (putImageData ctx ?out) ! ((y * im_width ctx + x) * 4 + k) =
                dst ?st ! ((y * w + x) * 4 + k))"
  proof (intro impI allI)
    fix k :: nat assume xy: "x < im_width ctx \<and> y < im_height ctx" and k: "k < 4"
    have xo: "x < im_width ?out" and yo: "y < im_height ?out" using x y ci by simp_all
    have "data (putImageData ctx ?out) ! ((y * im_width ctx + x) * 4 + k) =
        data ?out ! ((y * im_width ?out + x) * 4 + k)"
      using xy by (intro putImageData_bytes xo yo k) simp_all
    then show "data (putImageData ctx ?out) ! ((y * im_width ctx + x) * 4 + k) =
        dst ?st ! ((y * w + x) * 4 + k)" using ci by simp
  qed
  have 3: "src ?st = data imageData" by (simp add: convolution_pass_def conv_loops_src)
  have 4: "im_width output = im_width imageData \<and> im_height output = im_height imageData"
    using gi ci by simp
  have 5: "length (dst ?st) = length (data imageData)"
    using gi ci by (simp add: convolution_pass_def conv_loops_len)
  have 6: "dst ?st ! (?off + 3) = data imageData ! (?off + 3)"
    using px [of 3] off by (simp add: out_pixel_def toUint8Clamp_get split: prod.splits)
  have 7: "case kernel_sums (data imageData) w h kern (round_sqrt (length kern))
                  (round_sqrt (length kern) div 2) y x of
            (r, g, b) \<Rightarrow> dst ?st ! ?off = toUint8Clamp r
            \<and> dst ?st ! (?off + 1) = toUint8Clamp g \<and> dst ?st ! (?off + 2) = toUint8Clamp b"
    using px [of 0] px [of 1] px [of 2] by (simp add: out_pixel_def split: prod.splits)
  have 8: "\<forall>cy cx acc.
             \<not> (0 \<le> int y + int cy - int (round_sqrt (length kern) div 2)
                \<and> int y + int cy - int (round_sqrt (length kern) div 2) < int h
                \<and> 0 \<le> int x + int cx - int (round_sqrt (length kern) div 2)
                \<and> int x + int cx - int (round_sqrt (length kern) div 2) < int w) \<longrightarrow>
             tap (data imageData) w h kern (round_sqrt (length kern))
               (round_sqrt (length kern) div 2) y x cy cx acc = acc"
    by (intro allI impI) (rule tap_outside)
  note 9 = kernel_sums_inside [of "data imageData" w h kern "round_sqrt (length kern)"
      "round_sqrt (length kern) div 2" y x]
  show ?thesis by (intro conjI 1 2 3 4 [THEN conjunct1] 4 [THEN conjunct2] 5 6 7 8 9)
qed

text \<open>
  A two-pixel image under the sharpening kernel, at its second pixel: the canvas holds
  the output afterwards, the tap above the image changes no sum, and the sums come from
  the two taps inside the image.
\<close>
theorem convolution_output_witness:
  "getImageData \<lparr>im_width = 2, im_height = 1, data = [255, 255, 255, 255, 10, 20, 30, 40]\<rparr> 2 1 =
     Inr \<lparr>im_width = 2, im_height = 1, data = [255, 255, 255, 255, 10, 20, 30, 40]\<rparr>
   \<and> createImageData 2 1 = Inr \<lparr>im_width = 2, im_height = 1, data = [0, 0, 0, 0, 0, 0, 0, 0]\<rparr>
   \<and> (1 :: nat) < 2 \<and> (0 :: nat) < 1
   \<and> src (convolution_pass \<lparr>im_width = 2, im_height = 1, data = [255, 255, 255, 255, 10, 20, 30, 40]\<rparr>
             \<lparr>im_width = 2, im_height = 1, data = [0, 0, 0, 0, 0, 0, 0, 0]\<rparr>
             sharpenKernel) = [255, 255, 255, 255, 10, 20, 30, 40]
   \<and> dst (convolution_pass \<lparr>im_width = 2, im_height = 1, data = [255, 255, 255, 255, 10, 20, 30, 40]\<rparr>
             \<lparr>im_width = 2, im_height = 1, data = [0, 0, 0, 0, 0, 0, 0, 0]\<rparr>
             sharpenKernel) ! 7 = 40
   \<and> data (putImageData \<lparr>im_width = 2, im_height = 1, data = [255, 255, 255, 255, 10, 20, 30, 40]\<rparr>
             (\<lparr>im_width = 2, im_height = 1, data = [0, 0, 0, 0, 0, 0, 0, 0]\<rparr>
                \<lparr>data := dst (convolution_pass
                     \<lparr>im_width = 2, im_height = 1, data = [255, 255, 255, 255, 10, 20, 30, 40]\<rparr>
                     \<lparr>im_width = 2, im_height = 1, data = [0, 0, 0, 0, 0, 0, 0, 0]\<rparr>
                     sharpenKernel)\<rparr>)) ! 7 = 40
   \<and> tap [255, 255, 255, 255, 10, 20, 30, 40] 2 1 sharpenKernel 3 1 0 1 0 1
         (Some 7, Some 8, Some 9) = (Some 7, Some 8, Some 9)
   \<and> kernel_sums [255, 255, 255, 255, 10, 20, 30, 40] 2 1 sharpenKernel 3 1 0 1 =
       (Some (- 205), Some (- 155), Some (- 105))"
proof -
  let ?img = "\<lparr>im_width = 2, im_height = 1, data = [255, 255, 255, 255, 10, 20, 30, 40 :: u8]\<rparr>"
  let ?out = "\<lparr>im_width = 2, im_height = 1, data = [0, 0, 0, 0, 0, 0, 0, 0 :: u8]\<rparr>"
  have g: "getImageData ?img 2 1 = Inr ?img" by code_simp
  have c: "createImageData 2 1 = Inr ?out" by code_simp
  have x: "(1 :: nat) < 2" and y: "(0 :: nat) < 1" by simp_all
  have side: "round_sqrt (length sharpenKernel) = 3" by code_simp
  note t = convolution_output [OF g c x y, of sharpenKernel]
  have s: "src (convolution_pass ?img ?out sharpenKernel) = data ?img"
    by (rule t [THEN conjunct2, THEN conjunct2, THEN conjunct1])
  have a: "dst (convolution_pass ?img ?out sharpenKernel) ! ((0 * 2 + 1) * 4 + 3) =
           data ?img ! ((0 * 2 + 1) * 4 + 3)"
    by (rule t [THEN conjunct2, THEN conjunct2, THEN conjunct2, THEN conjunct2, THEN conjunct2,
          THEN conjunct2, THEN conjunct1])
  note rest = t [THEN conjunct2, THEN conjunct2, THEN conjunct2, THEN conjunct2, THEN conjunct2,
      THEN conjunct2, THEN conjunct2, THEN conjunct2]
  have on: "(1 :: nat) < im_width ?img \<and> (0 :: nat) < im_height ?img" by simp
  have "data (putImageData ?img (?out\<lparr>data := dst (convolution_pass ?img ?out sharpenKernel)\<rparr>))
          ! ((0 * im_width ?img + 1) * 4 + 3) =
        dst (convolution_pass ?img ?out sharpenKernel) ! ((0 * 2 + 1) * 4 + 3)"
    by (rule t [THEN conjunct2, THEN conjunct1, THEN mp, OF on, rule_format]) simp
  then have cv: "data (putImageData ?img (?out\<lparr>data := dst (convolution_pass ?img ?out sharpenKernel)\<rparr>))
          ! 7 = 40"
    using a by simp
  have out: "\<not> (0 \<le> int 0 + int 0 - int (round_sqrt (length sharpenKernel) div 2)
                \<and> int 0 + int 0 - int (round_sqrt (length sharpenKernel) div 2) < int 1
                \<and> 0 \<le> int 1 + int 1 - int (round_sqrt (length sharpenKernel) div 2)
                \<and> int 1 + int 1 - int (round_sqrt (length sharpenKernel) div 2) < int 2)"
    by (simp add: side)
  have tp: "tap (data ?img) 2 1 sharpenKernel (round_sqrt (length sharpenKernel))
               (round_sqrt (length sharpenKernel) div 2) 0 1 0 1 (Some 7, Some 8, Some 9) =
             (Some 7, Some 8, Some 9)"
    by (rule rest [THEN conjunct1, rule_format, OF out])
  have "kernel_sums (data ?img) 2 1 sharpenKernel (round_sqrt (length sharpenKernel))
            (round_sqrt (length sharpenKernel) div 2) 0 1 =
        fold (\<lambda>(cy, cx) acc. add3 acc (tap_weighted (data ?img) 2 sharpenKernel (round_sqrt (length sharpenKernel))
                    (int 0 + int cy - int (round_sqrt (length sharpenKernel) div 2))
                    (int 1 + int cx - int (round_sqrt (length sharpenKernel) div 2)) cy cx))
             (filter (\<lambda>(cy, cx).
                        0 \<le> int 0 + int cy - int (round_sqrt (length sharpenKernel) div 2)
                        \<and> int 0 + int cy - int (round_sqrt (length sharpenKernel) div 2) < int 1
                        \<and> 0 \<le> int 1 + int cx - int (round_sqrt (length sharpenKernel) div 2)
                        \<and> int 1 + int cx - int (round_sqrt (length sharpenKernel) div 2) < int 2)
                (List.product [0..<round_sqrt (length sharpenKernel)] [0..<round_sqrt (length sharpenKernel)]))
             (Some 0, Some 0, Some 0)"
    by (rule rest [THEN conjunct2])
  also have "\<dots> = (Some (- 205), Some (- 155), Some (- 105))" by code_simp
  finally have ks: "kernel_sums (data ?img) 2 1 sharpenKernel (round_sqrt (length sharpenKernel))
            (round_sqrt (length sharpenKernel) div 2) 0 1 = (Some (- 205), Some (- 155), Some (- 105))" .
  show ?thesis using g c s a cv tp ks by (simp add: side)
qed

text \<open>
  Claim C5. With the kernel that is zero but for a weight 1 at its centre (of any side,
  the odd ones among them), the output array equals the input array in every byte: red,
  green, blue and alpha of every pixel. The canvas is written back with the image read.
\<close>
theorem identity_kernel_convolution:
  assumes g: "getImageData ctx w h = Inr imageData" and c: "createImageData w h = Inr output"
    and side: "0 < side"
  shows "dst (convolution_pass imageData output (identity_kernel side)) = data imageData
       \<and> applyConvolution ctx w h (identity_kernel side) = Inr (putImageData ctx imageData)"
proof -
  note gi = length_getImageData [OF g] and ci = createImageData_Inr [OF c]
  have eq: "dst (convolution_pass imageData output (identity_kernel side)) = data imageData"
    by (rule identity_pass [OF g c side])
  have "output\<lparr>data := data imageData\<rparr> = imageData" using gi ci by simp
  then show ?thesis using applyConvolution_Inr [OF g c, of "identity_kernel side"] eq by simp
qed

theorem identity_kernel_convolution_witness:
  "getImageData \<lparr>im_width = 2, im_height = 1, data = [255, 255, 255, 255, 10, 20, 30, 40]\<rparr> 2 1 =
     Inr \<lparr>im_width = 2, im_height = 1, data = [255, 255, 255, 255, 10, 20, 30, 40]\<rparr>
   \<and> createImageData 2 1 = Inr \<lparr>im_width = 2, im_height = 1, data = [0, 0, 0, 0, 0, 0, 0, 0]\<rparr>
   \<and> (0 :: nat) < 3
   \<and> identity_kernel 3 = [0, 0, 0, 0, 1, 0, 0, 0, 0]
   \<and> dst (convolution_pass \<lparr>im_width = 2, im_height = 1, data = [255, 255, 255, 255, 10, 20, 30, 40]\<rparr>
             \<lparr>im_width = 2, im_height = 1, data = [0, 0, 0, 0, 0, 0, 0, 0]\<rparr>
             (identity_kernel 3)) = [255, 255, 255, 255, 10, 20, 30, 40]"
proof -
  let ?img = "\<lparr>im_width = 2, im_height = 1, data = [255, 255, 255, 255, 10, 20, 30, 40 :: u8]\<rparr>"
  let ?out = "\<lparr>im_width = 2, im_height = 1, data = [0, 0, 0, 0, 0, 0, 0, 0 :: u8]\<rparr>"
  have g: "getImageData ?img 2 1 = Inr ?img" by code_simp
  have c: "createImageData 2 1 = Inr ?out" by code_simp
  have s: "(0 :: nat) < 3" by simp
  have k: "identity_kernel 3 = [0, 0, 0, 0, 1, 0, 0, 0, 0]" by code_simp
  from identity_kernel_convolution [OF g c s]
  have "dst (convolution_pass ?img ?out (identity_kernel 3)) = data ?img" by blast
  then show ?thesis using g c k by simp
qed

text \<open>
  Claim C6, as stated, fails: a kernel of four weights has side 2 and the empty kernel has
  side 0, and the convolution returns a buffer for both.
\<close>
theorem even_kernel_is_accepted:
  "round_sqrt (length [1, 0, 0, 0 :: int]) = 2
   \<and> applyConvolution \<lparr>im_width = 1, im_height = 1, data = [100, 50, 200, 255]\<rparr> 1 1 [1, 0, 0, 0] =
       Inr \<lparr>im_width = 1, im_height = 1, data = [0, 0, 0, 255]\<rparr>
   \<and> round_sqrt (length ([] :: int list)) = 0
   \<and> applyConvolution \<lparr>im_width = 1, im_height = 1, data = [100, 50, 200, 255]\<rparr> 1 1 [] =
       Inr \<lparr>im_width = 1, im_height = 1, data = [0, 0, 0, 255]\<rparr>"
  by code_simp

text \<open>
  Claim C6, amended. The convolution checks nothing about the kernel. For every kernel,
  whatever its length, it either fails with \<^verbatim>\<open>IndexSizeError\<close>, and then the width or
  the height asked for is zero, or it returns the canvas with its size unchanged, and
  then both are positive.
\<close>
theorem applyConvolution_checks_only_size:
  "applyConvolution ctx w h kern = Inl IndexSizeError \<and> (w = 0 \<or> h = 0)
   \<or> (\<exists>out. applyConvolution ctx w h kern = Inr out
         \<and> im_width out = im_width ctx \<and> im_height out = im_height ctx) \<and> 0 < w \<and> 0 < h"
proof (cases "w = 0 \<or> h = 0")
  case True
  then show ?thesis by (auto simp: applyConvolution_def getImageData_def)
next
  case False
  then obtain img out where "getImageData ctx w h = Inr img" "createImageData w h = Inr out"
    by (auto simp: getImageData_def createImageData_def)
  from applyConvolution_Inr [OF this] False show ?thesis
    by (simp add: putImageData_def)
qed

text \<open>
  Claim C9, as stated, fails: the sums 500 and 1000 are stored as 255 (not as 244 and 232,
  their values modulo 256), and the sum -205 is stored as 0 (not as 51).
\<close>
theorem out_of_range_sum_is_not_wrapped:
  "kernel_sums [100, 50, 200, 255] 1 1 [5] 1 0 0 0 = (Some 500, Some 250, Some 1000)
   \<and> applyConvolution \<lparr>im_width = 1, im_height = 1, data = [100, 50, 200, 255]\<rparr> 1 1 [5] =
       Inr \<lparr>im_width = 1, im_height = 1, data = [255, 250, 255, 255]\<rparr>
   \<and> (500 :: int) mod 256 = 244 \<and> (1000 :: int) mod 256 = 232
   \<and> kernel_sums [255, 255, 255, 255, 10, 20, 30, 40] 2 1 sharpenKernel 3 1 0 1 =
       (Some (- 205), Some (- 155), Some (- 105))
   \<and> applyConvolution \<lparr>im_width = 2, im_height = 1, data = [255, 255, 255, 255, 10, 20, 30, 40]\<rparr> 2 1
         sharpenKernel =
       Inr \<lparr>im_width = 2, im_height = 1, data = [255, 255, 255, 255, 0, 0, 0, 40]\<rparr>
   \<and> (- 205 :: int) mod 256 = 51"
  by code_simp

lemma uint_toUint8Clamp: "uint (toUint8Clamp (Some v)) = max 0 (min 255 v)"
proof -
  have "0 \<le> max 0 (min 255 v)" "max 0 (min 255 v) < 2 ^ 8" by simp_all
  then have "uint (word_of_int (max 0 (min 255 v)) :: u8) = max 0 (min 255 v)"
    by (simp add: uint_word_of_int)
  then show ?thesis by (simp add: toUint8Clamp_def)
qed

text \<open>
  Claim C9, amended. A kernel sum is stored clamped to \<open>[0, 255]\<close>: a sum above 255 is
  stored as 255, a sum below 0 as 0, for each of the three colour channels of every
  destination pixel.
\<close>
theorem convolution_store_clamps:
  assumes g: "getImageData ctx w h = Inr imageData" and c: "createImageData w h = Inr output"
    and x: "x < w" and y: "y < h"
    and sums: "kernel_sums (data imageData) w h kern (round_sqrt (length kern))
                 (round_sqrt (length kern) div 2) y x = (Some r, Some g, Some b)"
  shows "uint (dst (convolution_pass imageData output kern) ! ((y * w + x) * 4)) = max 0 (min 255 r)
       \<and> uint (dst (convolution_pass imageData output kern) ! ((y * w + x) * 4 + 1)) = max 0 (min 255 g)
       \<and> uint (dst (convolution_pass imageData output kern) ! ((y * w + x) * 4 + 2)) = max 0 (min 255 b)"
  using convolution_pass_pixel [OF g c x y, of 0 kern] convolution_pass_pixel [OF g c x y, of 1 kern]
    convolution_pass_pixel [OF g c x y, of 2 kern]
  by (simp add: out_pixel_def sums uint_toUint8Clamp)

theorem convolution_store_clamps_witness:
  "getImageData \<lparr>im_width = 1, im_height = 1, data = [100, 50, 200, 255]\<rparr> 1 1 =
     Inr \<lparr>im_width = 1, im_height = 1, data = [100, 50, 200, 255]\<rparr>
   \<and> createImageData 1 1 = Inr \<lparr>im_width = 1, im_height = 1, data = [0, 0, 0, 0]\<rparr>
   \<and> (0 :: nat) < 1
   \<and> kernel_sums [100, 50, 200, 255] 1 1 [5] (round_sqrt (length [5 :: int])) 
        (round_sqrt (length [5 :: int]) div 2) 0 0 = (Some 500, Some 250, Some 1000)
   \<and> uint (dst (convolution_pass \<lparr>im_width = 1, im_height = 1, data = [100, 50, 200, 255]\<rparr>
                   \<lparr>im_width = 1, im_height = 1, data = [0, 0, 0, 0]\<rparr> [5]) ! 0) = 255
   \<and> uint (dst (convolution_pass \<lparr>im_width = 1, im_height = 1, data = [100, 50, 200, 255]\<rparr>
                   \<lparr>im_width = 1, im_height = 1, data = [0, 0, 0, 0]\<rparr> [5]) ! 1) = 250"
proof -
  let ?img = "\<lparr>im_width = 1, im_height = 1, data = [100, 50, 200, 255 :: u8]\<rparr>"
  let ?out = "\<lparr>im_width = 1, im_height = 1, data = [0, 0, 0, 0 :: u8]\<rparr>"
  have g: "getImageData ?img 1 1 = Inr ?img" by code_simp
  have c: "createImageData 1 1 = Inr ?out" by code_simp
  have x: "(0 :: nat) < 1" by simp
  have s: "kernel_sums (data ?img) 1 1 [5] (round_sqrt (length [5 :: int])) 
        (round_sqrt (length [5 :: int]) div 2) 0 0 = (Some 500, Some 250, Some 1000)" by code_simp
  from convolution_store_clamps [OF g c x x s] show ?thesis using g c s by simp
qed

section \<open>Properties of the canvas operations and of the look\<close>

lemma temp_canvas:
  "set_height (set_width createElement_canvas w) h =
     \<lparr>width = w, height = h, bitmap = replicate (w * h) transparent, context2d = True,
      globalAlpha = 1, globalCompositeOperation = SourceOver,
      fillStyle = \<lparr>red = 0, green = 0, blue = 0, alpha = 1\<rparr>, ctx_filter = []\<rparr>"
  by (simp add: set_height_def set_width_def createElement_canvas_def reset_state_def)

lemma pixel_at_nth: "i < length px \<Longrightarrow> pixel_at px i = px ! i"
  by (simp add: pixel_at_def)

lemma draw_at_origin_state:
  "width (draw_at_origin sq ctx iw ih px) = width ctx"
  "height (draw_at_origin sq ctx iw ih px) = height ctx"
  "context2d (draw_at_origin sq ctx iw ih px) = context2d ctx"
  "globalAlpha (draw_at_origin sq ctx iw ih px) = globalAlpha ctx"
  "globalCompositeOperation (draw_at_origin sq ctx iw ih px) = globalCompositeOperation ctx"
  "fillStyle (draw_at_origin sq ctx iw ih px) = fillStyle ctx"
  "ctx_filter (draw_at_origin sq ctx iw ih px) = ctx_filter ctx"
  "length (bitmap (draw_at_origin sq ctx iw ih px)) = width ctx * height ctx"
  by (simp_all add: draw_at_origin_def)

lemma index_in_row:
  fixes p w h :: nat
  assumes "p < w * h"
  shows "p mod w < w" and "p div w < h" and "p div w * w + p mod w = p"
proof -
  have "0 < w" using assms by (cases w) simp_all
  then show "p mod w < w" by simp
  show "p div w < h" using assms by (simp add: less_mult_imp_div_less mult.commute)
  show "p div w * w + p mod w = p" by simp
qed

lemma draw_at_origin_cover:
  assumes "iw = width ctx" and "height ctx \<le> ih"
  shows "bitmap (draw_at_origin sq ctx iw ih px) =
           map (\<lambda>p. draw_pixel sq ctx (pixel_at px p) (pixel_at (bitmap ctx) p))
             [0..<width ctx * height ctx]"
proof -
  have "(let x = p mod width ctx; y = p div width ctx in
           if x < iw \<and> y < ih
           then draw_pixel sq ctx (pixel_at px (y * iw + x)) (pixel_at (bitmap ctx) p)
           else pixel_at (bitmap ctx) p) =
        draw_pixel sq ctx (pixel_at px p) (pixel_at (bitmap ctx) p)"
    if "p \<in> set [0..<width ctx * height ctx]" for p
  proof -
    have "p < width ctx * height ctx" using that by simp
    from index_in_row [OF this] assms show ?thesis by (simp add: Let_def)
  qed
  then show ?thesis unfolding draw_at_origin_def by (simp cong: map_cong)
qed

lemma alpha_apply_filter: "alpha (apply_filter f p) = alpha p"
  by (cases f) simp_all

lemma alpha_apply_filters: "alpha (apply_filters fs p) = alpha p"
  unfolding apply_filters_def by (induction fs arbitrary: p) (simp_all add: alpha_apply_filter)

lemma composite_opaque_source:
  assumes "alpha s = 1"
  shows "composite sq SourceOver s b = s"
proof -
  have "(1 - alpha b) * c + alpha b * c = c" for c :: rat by (simp add: algebra_simps)
  then show ?thesis using assms
    by (simp add: composite_def composite_channel_def Let_def)
qed

lemma draw_pixel_opaque:
  assumes "globalCompositeOperation ctx = SourceOver" and "globalAlpha ctx = 1" and "alpha s = 1"
  shows "draw_pixel sq ctx s b = apply_filters (ctx_filter ctx) s"
proof -
  let ?f = "apply_filters (ctx_filter ctx) s"
  have "alpha ?f = 1" using assms(3) by (simp add: alpha_apply_filters)
  then have "?f\<lparr>alpha := alpha ?f * globalAlpha ctx\<rparr> = ?f" "alpha ?f = 1"
    using assms(2) by simp_all
  then show ?thesis using assms(1)
    by (simp add: draw_pixel_def Let_def composite_opaque_source)
qed


lemma clearRect_state:
  "width (clearRect ctx w h) = width ctx"
  "height (clearRect ctx w h) = height ctx"
  "context2d (clearRect ctx w h) = context2d ctx"
  "globalAlpha (clearRect ctx w h) = globalAlpha ctx"
  "globalCompositeOperation (clearRect ctx w h) = globalCompositeOperation ctx"
  "ctx_filter (clearRect ctx w h) = ctx_filter ctx"
  "length (bitmap (clearRect ctx w h)) = width ctx * height ctx"
  by (simp_all add: clearRect_def)

lemma fillRect_state:
  "width (fillRect sq ctx w h) = width ctx"
  "height (fillRect sq ctx w h) = height ctx"
  "context2d (fillRect sq ctx w h) = context2d ctx"
  "globalAlpha (fillRect sq ctx w h) = globalAlpha ctx"
  "globalCompositeOperation (fillRect sq ctx w h) = globalCompositeOperation ctx"
  "fillStyle (fillRect sq ctx w h) = fillStyle ctx"
  "ctx_filter (fillRect sq ctx w h) = ctx_filter ctx"
  "length (bitmap (fillRect sq ctx w h)) = width ctx * height ctx"
  by (simp_all add: fillRect_def draw_at_origin_state)

lemma tint_passes_state:
  "width (tint_passes sq ctx w h) = width ctx"
  "height (tint_passes sq ctx w h) = height ctx"
  "context2d (tint_passes sq ctx w h) = context2d ctx"
  "globalAlpha (tint_passes sq ctx w h) = globalAlpha ctx"
  "fillStyle (tint_passes sq ctx w h) = orange_tint"
  by (simp_all add: tint_passes_def Let_def fillRect_state)

text \<open>The copy of an opaque canvas on the temporary canvas.\<close>

lemma temp_copy:
  assumes len: "length (bitmap cnv) = width cnv * height cnv"
    and op: "\<forall>p < width cnv * height cnv. alpha (bitmap cnv ! p) = 1"
  shows "draw_at_origin sq (set_height (set_width createElement_canvas (width cnv)) (height cnv))
           (width cnv) (height cnv) (bitmap cnv) =
         (set_height (set_width createElement_canvas (width cnv)) (height cnv))\<lparr>bitmap := bitmap cnv\<rparr>"
proof -
  let ?t = "set_height (set_width createElement_canvas (width cnv)) (height cnv)"
  have st: "width ?t = width cnv" "height ?t = height cnv" "globalAlpha ?t = 1"
    "globalCompositeOperation ?t = SourceOver" "ctx_filter ?t = []"
    by (simp_all add: temp_canvas)
  have "bitmap (draw_at_origin sq ?t (width cnv) (height cnv) (bitmap cnv)) =
      map (\<lambda>p. draw_pixel sq ?t (pixel_at (bitmap cnv) p) (pixel_at (bitmap ?t) p))
        [0..<width ?t * height ?t]"
    by (rule draw_at_origin_cover) (simp_all add: st)
  also have "\<dots> = map (\<lambda>p. bitmap cnv ! p) [0..<width cnv * height cnv]"
  proof (rule map_cong)
    show "[0..<width ?t * height ?t] = [0..<width cnv * height cnv]" by (simp add: st)
    fix p assume "p \<in> set [0..<width cnv * height cnv]"
    then have p: "p < width cnv * height cnv" by simp
    then have "alpha (pixel_at (bitmap cnv) p) = 1" "pixel_at (bitmap cnv) p = bitmap cnv ! p"
      using op len by (simp_all add: pixel_at_nth)
    then show "draw_pixel sq ?t (pixel_at (bitmap cnv) p) (pixel_at (bitmap ?t) p) = bitmap cnv ! p"
      using draw_pixel_opaque [of ?t "pixel_at (bitmap cnv) p" sq] st
      by (simp add: apply_filters_def)
  qed
  also have "\<dots> = bitmap cnv" unfolding len [symmetric] by (rule map_nth)
  finally show ?thesis by (simp add: draw_at_origin_def)
qed

text \<open>
  On an opaque canvas whose opacity is 1 the look ends with the filtered original in every
  pixel: the last \<open>drawImage\<close> draws the copy of the original, opaque, over the tinted
  canvas.
\<close>

lemma processSonyLook_opaque:
  assumes ctx: "context2d cnv" and w: "0 < width cnv" and h: "0 < height cnv"
    and len: "length (bitmap cnv) = width cnv * height cnv"
    and op: "\<forall>p < width cnv * height cnv. alpha (bitmap cnv ! p) = 1"
    and ga: "globalAlpha cnv = 1"
  shows "processSonyLook sq cnv =
           Inr (cnv\<lparr>bitmap := map (apply_filters look_filter) (bitmap cnv),
                     globalCompositeOperation := SourceOver, fillStyle := orange_tint,
                     ctx_filter := []\<rparr>)"
proof -
  let ?w = "width cnv" and ?h = "height cnv"
  let ?t = "set_height (set_width createElement_canvas ?w) ?h"
  let ?temp = "?t\<lparr>bitmap := bitmap cnv\<rparr>"
  let ?c1 = "draw_at_origin sq (clearRect cnv ?w ?h) ?w ?h (bitmap cnv)"
  let ?c3 = "(tint_passes sq ?c1 ?w ?h)\<lparr>globalCompositeOperation := SourceOver, ctx_filter := look_filter\<rparr>"
  let ?c4 = "draw_at_origin sq ?c3 ?w ?h (bitmap cnv)"
  have tc: "context2d ?t" "width ?temp = ?w" "height ?temp = ?h" "bitmap ?temp = bitmap cnv"
    by (simp_all add: temp_canvas)
  have d1: "drawImage_canvas sq ?t cnv = Inr ?temp"
    using w h temp_copy [OF len op] by (simp add: drawImage_canvas_def)
  have d2: "drawImage_canvas sq (clearRect cnv ?w ?h) ?temp = Inr ?c1"
    using w h by (simp add: drawImage_canvas_def tc)
  have d3: "drawImage_canvas sq ?c3 ?temp = Inr ?c4"
    using w h by (simp add: drawImage_canvas_def tc)
  have st3: "width ?c3 = ?w" "height ?c3 = ?h" "globalAlpha ?c3 = 1"
    "globalCompositeOperation ?c3 = SourceOver" "ctx_filter ?c3 = look_filter"
    "context2d ?c3 = context2d cnv" "fillStyle ?c3 = orange_tint"
    using ga by (simp_all add: tint_passes_state draw_at_origin_state clearRect_state)
  have "bitmap ?c4 =
      map (\<lambda>p. draw_pixel sq ?c3 (pixel_at (bitmap cnv) p) (pixel_at (bitmap ?c3) p))
        [0..<width ?c3 * height ?c3]"
    by (rule draw_at_origin_cover) (simp_all add: st3)
  also have "\<dots> = map (\<lambda>p. apply_filters look_filter (bitmap cnv ! p)) [0..<?w * ?h]"
  proof (rule map_cong)
    show "[0..<width ?c3 * height ?c3] = [0..<?w * ?h]" by (simp add: st3)
    fix p assume "p \<in> set [0..<?w * ?h]"
    then have p: "p < ?w * ?h" by simp
    then have "alpha (pixel_at (bitmap cnv) p) = 1" "pixel_at (bitmap cnv) p = bitmap cnv ! p"
      using op len by (simp_all add: pixel_at_nth)
    then show "draw_pixel sq ?c3 (pixel_at (bitmap cnv) p) (pixel_at (bitmap ?c3) p) =
        apply_filters look_filter (bitmap cnv ! p)"
      using draw_pixel_opaque [of ?c3 "pixel_at (bitmap cnv) p" sq] st3 by simp
  qed
  also have "\<dots> = map (apply_filters look_filter) (map (\<lambda>p. bitmap cnv ! p) [0..<?w * ?h])"
    by (simp add: comp_def)
  also have "map (\<lambda>p. bitmap cnv ! p) [0..<?w * ?h] = bitmap cnv"
    unfolding len [symmetric] by (rule map_nth)
  finally have bm: "bitmap ?c4 = map (apply_filters look_filter) (bitmap cnv)" .
  have "?c4\<lparr>ctx_filter := []\<rparr> =
      cnv\<lparr>bitmap := map (apply_filters look_filter) (bitmap cnv),
          globalCompositeOperation := SourceOver, fillStyle := orange_tint, ctx_filter := []\<rparr>"
    using bm st3 ga by (intro canvas.equality) (simp_all add: draw_at_origin_state)
  then show ?thesis
    using ctx tc(1) d1 d2 d3 by (simp add: processSonyLook_def Let_def)
qed

lemma processSonyLook_succeeds:
  assumes w: "0 < width cnv" and h: "0 < height cnv"
  shows "\<exists>c. processSonyLook sq cnv = Inr c \<and> width c = width cnv \<and> height c = height cnv"
proof (cases "context2d cnv")
  case False
  then show ?thesis by (simp add: processSonyLook_def)
next
  case True
  let ?w = "width cnv" and ?h = "height cnv"
  let ?t = "set_height (set_width createElement_canvas ?w) ?h"
  have t: "context2d ?t" "width ?t = ?w" "height ?t = ?h" by (simp_all add: temp_canvas)
  show ?thesis using True w h t
    by (simp add: processSonyLook_def Let_def drawImage_canvas_def draw_at_origin_state
        clearRect_state tint_passes_state)
qed

section \<open>Properties of the stacking loop\<close>

lemma stack_loop_step:
  "i < n \<Longrightarrow>
   stack_loop sq v n i c =
     stack_loop sq v n (Suc i) (drawImage_video sq (c\<lparr>globalAlpha := 1 / (of_nat i + 1)\<rparr>) v i)"
  by (subst stack_loop.simps) simp

lemma stack_loop_done: "n \<le> i \<Longrightarrow> stack_loop sq v n i c = c"
  by (subst stack_loop.simps) simp

lemma stack_loop_snoc:
  "i \<le> n \<Longrightarrow>
   stack_loop sq v (Suc n) i c =
     drawImage_video sq ((stack_loop sq v n i c)\<lparr>globalAlpha := 1 / (of_nat n + 1)\<rparr>) v n"
proof (induction "n - i" arbitrary: i c)
  case 0
  then have "i = n" by simp
  then show ?case by (simp add: stack_loop_step stack_loop_done)
next
  case (Suc d)
  then have lt: "i < n" by simp
  let ?c = "drawImage_video sq (c\<lparr>globalAlpha := 1 / (of_nat i + 1)\<rparr>) v i"
  have "stack_loop sq v (Suc n) i c = stack_loop sq v (Suc n) (Suc i) ?c"
    using lt by (simp add: stack_loop_step)
  also have "\<dots> = drawImage_video sq ((stack_loop sq v n (Suc i) ?c)\<lparr>globalAlpha := 1 / (of_nat n + 1)\<rparr>) v n"
    using Suc.hyps(1) [of "Suc i" ?c] Suc.hyps(2) lt by simp
  also have "stack_loop sq v n (Suc i) ?c = stack_loop sq v n i c"
    using lt by (simp add: stack_loop_step)
  finally show ?case .
qed

lemma accumulator_Suc:
  "accumulator sq v cnv (Suc n) =
     drawImage_video sq ((accumulator sq v cnv n)\<lparr>globalAlpha := 1 / (of_nat n + 1)\<rparr>) v n"
  by (simp add: accumulator_def Let_def stack_loop_snoc)

lemma accumulator_0:
  "accumulator sq v cnv 0 =
     clearRect (set_height (set_width cnv (videoWidth v)) (videoHeight v)) (videoWidth v) (videoHeight v)"
  by (simp add: accumulator_def Let_def stack_loop_done)

lemma drawImage_video_state:
  "width (drawImage_video sq ctx v t) = width ctx"
  "height (drawImage_video sq ctx v t) = height ctx"
  "context2d (drawImage_video sq ctx v t) = context2d ctx"
  "globalCompositeOperation (drawImage_video sq ctx v t) = globalCompositeOperation ctx"
  "ctx_filter (drawImage_video sq ctx v t) = ctx_filter ctx"
  "length (bitmap ctx) = width ctx * height ctx \<Longrightarrow>
     length (bitmap (drawImage_video sq ctx v t)) = width ctx * height ctx"
  by (simp_all add: drawImage_video_def draw_at_origin_state)

lemma accumulator_state:
  "width (accumulator sq v cnv n) = videoWidth v
   \<and> height (accumulator sq v cnv n) = videoHeight v
   \<and> context2d (accumulator sq v cnv n) = context2d cnv
   \<and> globalCompositeOperation (accumulator sq v cnv n) = SourceOver
   \<and> ctx_filter (accumulator sq v cnv n) = []
   \<and> length (bitmap (accumulator sq v cnv n)) = videoWidth v * videoHeight v"
proof (induction n)
  case 0
  show ?case
    by (simp add: accumulator_0 clearRect_state set_height_def set_width_def reset_state_def)
next
  case (Suc n)
  then show ?case by (simp add: accumulator_Suc drawImage_video_state)
qed

lemma accumulator_pixel:
  assumes p: "p < videoWidth v * videoHeight v"
  shows "bitmap (accumulator sq v cnv (Suc n)) ! p =
           composite sq SourceOver
             ((pixel_at (map opaque (frames v n)) p)
                \<lparr>alpha := alpha (pixel_at (map opaque (frames v n)) p) * (1 / (of_nat n + 1))\<rparr>)
             (bitmap (accumulator sq v cnv n) ! p)"
proof -
  let ?a = "accumulator sq v cnv n"
  let ?c = "?a\<lparr>globalAlpha := 1 / (of_nat n + 1)\<rparr>"
  note st = accumulator_state [of sq v cnv n]
  have "0 < videoWidth v * videoHeight v" using p by (rule le_less_trans [OF le0])
  then have nz: "\<not> (videoWidth v = 0 \<or> videoHeight v = 0)" by simp
  have "bitmap (draw_at_origin sq ?c (videoWidth v) (videoHeight v) (map opaque (frames v n))) =
      map (\<lambda>p. draw_pixel sq ?c (pixel_at (map opaque (frames v n)) p) (pixel_at (bitmap ?c) p))
        [0..<width ?c * height ?c]"
    by (rule draw_at_origin_cover) (simp_all add: st)
  then have "bitmap (accumulator sq v cnv (Suc n)) ! p =
      draw_pixel sq ?c (pixel_at (map opaque (frames v n)) p) (pixel_at (bitmap ?c) p)"
    using p nz st by (simp add: accumulator_Suc drawImage_video_def)
  moreover have "pixel_at (bitmap ?c) p = bitmap ?a ! p" using p st by (simp add: pixel_at_nth)
  ultimately show ?thesis using st
    by (simp add: draw_pixel_def apply_filters_def Let_def)
qed

lemma composite_over_opaque:
  assumes "alpha b = 1"
  shows "composite sq SourceOver s b =
           \<lparr>red = alpha s * red s + (1 - alpha s) * red b,
            green = alpha s * green s + (1 - alpha s) * green b,
            blue = alpha s * blue s + (1 - alpha s) * blue b, alpha = 1\<rparr>"
  using assms by (simp add: composite_def composite_channel_def Let_def)

lemma mean_step:
  fixes x s :: rat
  assumes "0 < n"
  shows "1 / (of_nat n + 1) * x + (1 - 1 / (of_nat n + 1)) * (s / of_nat n) =
         (s + x) / (of_nat n + 1)"
proof -
  have nz: "(of_nat n :: rat) \<noteq> 0" "(of_nat n + 1 :: rat) \<noteq> 0"
    using assms by (simp_all add: add_nonneg_eq_0_iff)
  have "(1 - 1 / (of_nat n + 1)) * (s / of_nat n) = s / (of_nat n + 1 :: rat)"
    using nz by (simp add: field_simps)
  then show ?thesis by (simp add: add_divide_distrib)
qed

lemma accumulator_mean:
  assumes p: "p < videoWidth v * videoHeight v"
    and len: "\<forall>i<Suc n. length (frames v i) = videoWidth v * videoHeight v"
  shows "bitmap (accumulator sq v cnv (Suc n)) ! p =
           opaque (arithmetic_mean (map (\<lambda>i. frames v i ! p) [0..<Suc n]))"
  using len
proof (induction n)
  case 0
  have "pixel_at (map opaque (frames v 0)) p = opaque (frames v 0 ! p)"
    using p 0 by (simp add: pixel_at_nth)
  moreover have "alpha (opaque c) = 1" for c by (simp add: opaque_def split: prod.splits)
  ultimately show ?case
    using accumulator_pixel [OF p, of sq cnv 0]
    by (simp add: composite_opaque_source arithmetic_mean_def opaque_def split: prod.splits)
next
  case (Suc n)
  let ?cs = "map (\<lambda>i. frames v i ! p) [0..<Suc n]"
  have IH: "bitmap (accumulator sq v cnv (Suc n)) ! p = opaque (arithmetic_mean ?cs)"
    using Suc by simp
  have px: "pixel_at (map opaque (frames v (Suc n))) p = opaque (frames v (Suc n) ! p)"
    using p Suc.prems by (simp add: pixel_at_nth)
  obtain r g b where c: "frames v (Suc n) ! p = (r, g, b)" by (cases "frames v (Suc n) ! p")
  have len: "length ?cs = Suc n" by simp
  have "bitmap (accumulator sq v cnv (Suc (Suc n))) ! p =
      composite sq SourceOver ((opaque (r, g, b))\<lparr>alpha := 1 / (of_nat (Suc n) + 1)\<rparr>)
        (opaque (arithmetic_mean ?cs))"
    using accumulator_pixel [OF p, of sq cnv "Suc n"] px c IH by (simp add: opaque_def)
  also have "\<dots> = opaque (arithmetic_mean (?cs @ [(r, g, b)]))"
    unfolding arithmetic_mean_def
    using mean_step [of "Suc n" r] mean_step [of "Suc n" g] mean_step [of "Suc n" b]
    by (simp add: composite_over_opaque opaque_def len del: of_nat_Suc upt_Suc map_append)
       (simp add: algebra_simps)
  also have "?cs @ [(r, g, b)] = map (\<lambda>i. frames v i ! p) [0..<Suc (Suc n)]"
    using c by simp
  finally show ?case .
qed

section \<open>The claim about the steps of performStacking\<close>

lemma toDataURL_nonempty: "toDataURL enc c \<noteq> []"
  by (simp add: toDataURL_def)

lemma performStacking_Inr:
  assumes ctx: "context2d cnv" and w: "0 < videoWidth v" and h: "0 < videoHeight v"
  shows "\<exists>look. processSonyLook sq ((accumulator sq v cnv frameCount)\<lparr>globalAlpha := 1\<rparr>) = Inr look
           \<and> performStacking sq enc v cnv = Inr (look, toDataURL enc look)"
proof -
  let ?c = "(accumulator sq v cnv frameCount)\<lparr>globalAlpha := 1\<rparr>"
  have "0 < width ?c" "0 < height ?c" using w h accumulator_state [of sq v cnv frameCount] by simp_all
  from processSonyLook_succeeds [OF this, of sq] obtain look where "processSonyLook sq ?c = Inr look"
    by blast
  then show ?thesis using ctx by (simp add: performStacking_def stacked_def)
qed

text \<open>
  The blend of one iteration, channel by channel: the sample at weight \<open>1 / (i + 1)\<close>
  over the accumulator at the rest of the weight, and opaque.
\<close>

lemma accumulator_blend:
  assumes p: "p < videoWidth v * videoHeight v"
    and len: "\<forall>j<Suc i. length (frames v j) = videoWidth v * videoHeight v"
  shows "bitmap (accumulator sq v cnv (Suc i)) ! p =
           \<lparr>red = fst (frames v i ! p) / (of_nat i + 1)
                   + (1 - 1 / (of_nat i + 1)) * red (bitmap (accumulator sq v cnv i) ! p),
            green = fst (snd (frames v i ! p)) / (of_nat i + 1)
                   + (1 - 1 / (of_nat i + 1)) * green (bitmap (accumulator sq v cnv i) ! p),
            blue = snd (snd (frames v i ! p)) / (of_nat i + 1)
                   + (1 - 1 / (of_nat i + 1)) * blue (bitmap (accumulator sq v cnv i) ! p),
            alpha = 1\<rparr>"
proof -
  obtain r g b where c: "frames v i ! p = (r, g, b)" by (cases "frames v i ! p")
  have px: "pixel_at (map opaque (frames v i)) p = opaque (r, g, b)"
    using p len c by (simp add: pixel_at_nth)
  have step: "bitmap (accumulator sq v cnv (Suc i)) ! p =
      composite sq SourceOver ((opaque (r, g, b))\<lparr>alpha := 1 / (of_nat i + 1)\<rparr>)
        (bitmap (accumulator sq v cnv i) ! p)"
    using accumulator_pixel [OF p, of sq cnv i] px by (simp add: opaque_def)
  show ?thesis
  proof (cases i)
    case 0
    have "(opaque (r, g, b))\<lparr>alpha := 1 / (of_nat 0 + 1)\<rparr> = opaque (r, g, b)"
      by (simp add: opaque_def)
    moreover have "alpha (opaque (r, g, b)) = 1" by (simp add: opaque_def)
    ultimately have "bitmap (accumulator sq v cnv (Suc 0)) ! p = opaque (r, g, b)"
      using step 0 by (simp only: composite_opaque_source)
    then show ?thesis using 0 c by (simp add: opaque_def)
  next
    case (Suc k)
    have "bitmap (accumulator sq v cnv (Suc k)) ! p =
        opaque (arithmetic_mean (map (\<lambda>j. frames v j ! p) [0..<Suc k]))"
      by (rule accumulator_mean [OF p]) (use len Suc in simp)
    then have "alpha (bitmap (accumulator sq v cnv i) ! p) = 1"
      using Suc by (simp add: opaque_def split: prod.splits)
    from composite_over_opaque [OF this, of sq "(opaque (r, g, b))\<lparr>alpha := 1 / (of_nat i + 1)\<rparr>"]
    show ?thesis using step c by (simp add: opaque_def)
  qed
qed

text \<open>
  Claim C1. With a 2D context at hand and a video that has frames, the loop runs four
  times; its iteration \<open>i\<close> (from 0) draws the sample \<open>i\<close> onto the accumulator of the
  samples before it with the opacity \<open>1 / (i + 1)\<close>, so that every pixel is the sample's
  pixel, its alpha multiplied by that opacity, composited source-over on the
  accumulator's pixel. With frames of the video's size that is, in every channel of
  every pixel, the sample's value times \<open>1 / (i + 1)\<close> plus the accumulator's value times
  \<open>1 - 1 / (i + 1)\<close>, at alpha 1. Then the accumulator, at opacity 1, goes through the
  look once, and the result of the look is what is encoded and returned.
\<close>
theorem performStacking_steps:
  assumes ctx: "context2d cnv" and w: "0 < videoWidth v" and h: "0 < videoHeight v"
  shows "frameCount = 4
       \<and> (\<forall>i<frameCount. accumulator sq v cnv (Suc i) =
             drawImage_video sq ((accumulator sq v cnv i)\<lparr>globalAlpha := 1 / (of_nat i + 1)\<rparr>) v i)
       \<and> (\<forall>i<frameCount. \<forall>p<videoWidth v * videoHeight v.
             bitmap (accumulator sq v cnv (Suc i)) ! p =
               composite sq SourceOver
                 ((pixel_at (map opaque (frames v i)) p)
                    \<lparr>alpha := alpha (pixel_at (map opaque (frames v i)) p) * (1 / (of_nat i + 1))\<rparr>)
                 (bitmap (accumulator sq v cnv i) ! p))
       \<and> ((\<forall>i<frameCount. length (frames v i) = videoWidth v * videoHeight v) \<longrightarrow>
          (\<forall>i<frameCount. \<forall>p<videoWidth v * videoHeight v.
             bitmap (accumulator sq v cnv (Suc i)) ! p =
               \<lparr>red = fst (frames v i ! p) / (of_nat i + 1)
                       + (1 - 1 / (of_nat i + 1)) * red (bitmap (accumulator sq v cnv i) ! p),
                green = fst (snd (frames v i ! p)) / (of_nat i + 1)
                       + (1 - 1 / (of_nat i + 1)) * green (bitmap (accumulator sq v cnv i) ! p),
                blue = snd (snd (frames v i ! p)) / (of_nat i + 1)
                       + (1 - 1 / (of_nat i + 1)) * blue (bitmap (accumulator sq v cnv i) ! p),
                alpha = 1\<rparr>))
       \<and> (\<exists>look. processSonyLook sq ((accumulator sq v cnv frameCount)\<lparr>globalAlpha := 1\<rparr>) = Inr look
             \<and> performStacking sq enc v cnv = Inr (look, toDataURL enc look))"
proof (intro conjI allI impI)
  show "frameCount = 4" by (simp add: frameCount_def)
  show "accumulator sq v cnv (Suc i) =
      drawImage_video sq ((accumulator sq v cnv i)\<lparr>globalAlpha := 1 / (of_nat i + 1)\<rparr>) v i" for i
    by (rule accumulator_Suc)
  show "bitmap (accumulator sq v cnv (Suc i)) ! p =
      composite sq SourceOver
        ((pixel_at (map opaque (frames v i)) p)
           \<lparr>alpha := alpha (pixel_at (map opaque (frames v i)) p) * (1 / (of_nat i + 1))\<rparr>)
        (bitmap (accumulator sq v cnv i) ! p)"
    if "p < videoWidth v * videoHeight v" for i p
    using that by (rule accumulator_pixel)
  show "bitmap (accumulator sq v cnv (Suc i)) ! p =
      \<lparr>red = fst (frames v i ! p) / (of_nat i + 1)
              + (1 - 1 / (of_nat i + 1)) * red (bitmap (accumulator sq v cnv i) ! p),
       green = fst (snd (frames v i ! p)) / (of_nat i + 1)
              + (1 - 1 / (of_nat i + 1)) * green (bitmap (accumulator sq v cnv i) ! p),
       blue = snd (snd (frames v i ! p)) / (of_nat i + 1)
              + (1 - 1 / (of_nat i + 1)) * blue (bitmap (accumulator sq v cnv i) ! p),
       alpha = 1\<rparr>"
    if "\<forall>i<frameCount. length (frames v i) = videoWidth v * videoHeight v" "i < frameCount"
      "p < videoWidth v * videoHeight v" for i p
    by (rule accumulator_blend [OF that(3)]) (use that(1,2) in simp)
  show "\<exists>look. processSonyLook sq ((accumulator sq v cnv frameCount)\<lparr>globalAlpha := 1\<rparr>) = Inr look
      \<and> performStacking sq enc v cnv = Inr (look, toDataURL enc look)"
    by (rule performStacking_Inr [OF ctx w h])
qed

text \<open>
  The ramp video on the grey canvas: the red channel of the one pixel is 0, then 1/10,
  then 1/5, then 3/10 as the samples 0, 1/5, 2/5 and 3/5 come in.
\<close>
theorem performStacking_steps_witness:
  "context2d grey_canvas \<and> 0 < videoWidth ramp_video \<and> 0 < videoHeight ramp_video
   \<and> bitmap (accumulator (\<lambda>x. x) ramp_video grey_canvas (Suc 0)) ! 0 =
       \<lparr>red = 0, green = 0, blue = 1, alpha = 1\<rparr>
   \<and> bitmap (accumulator (\<lambda>x. x) ramp_video grey_canvas (Suc (Suc 0))) ! 0 =
       \<lparr>red = 1 / 10, green = 0, blue = 1, alpha = 1\<rparr>
   \<and> bitmap (accumulator (\<lambda>x. x) ramp_video grey_canvas (Suc (Suc (Suc 0)))) ! 0 =
       \<lparr>red = 1 / 5, green = 0, blue = 1, alpha = 1\<rparr>
   \<and> bitmap (accumulator (\<lambda>x. x) ramp_video grey_canvas (Suc (Suc (Suc (Suc 0))))) ! 0 =
       \<lparr>red = 3 / 10, green = 0, blue = 1, alpha = 1\<rparr>
   \<and> (\<exists>look. performStacking (\<lambda>x. x) (\<lambda>w h px. ''/9j/'') ramp_video grey_canvas =
                 Inr (look, toDataURL (\<lambda>w h px. ''/9j/'') look))"
proof -
  let ?acc = "accumulator (\<lambda>x. x) ramp_video grey_canvas"
  have c: "context2d grey_canvas" by (simp add: grey_canvas_def)
  have w: "0 < videoWidth ramp_video" and h: "0 < videoHeight ramp_video"
    by (simp_all add: ramp_video_def)
  note t = performStacking_steps [OF c w h, of "\<lambda>x. x" "\<lambda>w h px. ''/9j/''"]
  have four: "frameCount = 4" by (rule t [THEN conjunct1])
  have len: "\<forall>i<frameCount. length (frames ramp_video i) = videoWidth ramp_video * videoHeight ramp_video"
    by (simp add: ramp_video_def)
  note blend = t [THEN conjunct2, THEN conjunct2, THEN conjunct2, THEN conjunct1, THEN mp, OF len,
      rule_format]
  have p: "0 < videoWidth ramp_video * videoHeight ramp_video" by (simp add: ramp_video_def)
  have fr: "frames ramp_video i ! 0 = (of_nat i / 5, 0, 1)" for i by (simp add: ramp_video_def)
  have a1: "bitmap (?acc (Suc 0)) ! 0 = \<lparr>red = 0, green = 0, blue = 1, alpha = 1\<rparr>"
    using blend [of 0 0] p by (simp add: four fr)
  have a2: "bitmap (?acc (Suc (Suc 0))) ! 0 = \<lparr>red = 1 / 10, green = 0, blue = 1, alpha = 1\<rparr>"
    using blend [of "Suc 0" 0] p by (simp add: four fr a1)
  have a3: "bitmap (?acc (Suc (Suc (Suc 0)))) ! 0 = \<lparr>red = 1 / 5, green = 0, blue = 1, alpha = 1\<rparr>"
    using blend [of "Suc (Suc 0)" 0] p by (simp add: four fr a2)
  have a4: "bitmap (?acc (Suc (Suc (Suc (Suc 0))))) ! 0 = \<lparr>red = 3 / 10, green = 0, blue = 1, alpha = 1\<rparr>"
    using blend [of "Suc (Suc (Suc 0))" 0] p by (simp add: four fr a3)
  from t [THEN conjunct2, THEN conjunct2, THEN conjunct2, THEN conjunct2]
  obtain look where "performStacking (\<lambda>x. x) (\<lambda>w h px. ''/9j/'') ramp_video grey_canvas =
                 Inr (look, toDataURL (\<lambda>w h px. ''/9j/'') look)"
    by (elim exE conjE)
  then have ex: "\<exists>look. performStacking (\<lambda>x. x) (\<lambda>w h px. ''/9j/'') ramp_video grey_canvas =
                 Inr (look, toDataURL (\<lambda>w h px. ''/9j/'') look)" ..
  show ?thesis by (intro conjI c w h a1 a2 a3 a4 ex)
qed

section \<open>The claims about the composite and about the look\<close>

lemma arithmetic_mean_channels:
  "opaque (arithmetic_mean cs) =
     \<lparr>red = (\<Sum>c\<leftarrow>cs. fst c) / of_nat (length cs),
      green = (\<Sum>c\<leftarrow>cs. fst (snd c)) / of_nat (length cs),
      blue = (\<Sum>c\<leftarrow>cs. snd (snd c)) / of_nat (length cs), alpha = 1\<rparr>"
  by (simp add: arithmetic_mean_def opaque_def)

text \<open>
  Claim C2, as stated, fails: there is no sequence of solid-colour frames, of any size and
  any length, for which a pixel of the composite built by the \<open>1/i\<close> rule differs, in
  exact arithmetic, from the arithmetic mean of the frames' colours.
\<close>
theorem no_solid_frames_differ_from_mean:
  "\<not> (\<exists>sq cnv w h cols p.
        cols \<noteq> [] \<and> p < w * h
        \<and> bitmap (accumulator sq
                     \<lparr>videoWidth = w, videoHeight = h, frames = (\<lambda>i. replicate (w * h) (cols ! i))\<rparr>
                     cnv (length cols)) ! p
            \<noteq> opaque (arithmetic_mean cols))"
proof
  assume "\<exists>sq cnv w h cols p.
        cols \<noteq> [] \<and> p < w * h
        \<and> bitmap (accumulator sq
                     \<lparr>videoWidth = w, videoHeight = h, frames = (\<lambda>i. replicate (w * h) (cols ! i))\<rparr>
                     cnv (length cols)) ! p
            \<noteq> opaque (arithmetic_mean cols)"
  then obtain sq cnv w h and cols :: "rgb list" and p
    where ne: "cols \<noteq> []" and p: "p < w * h"
      and neq: "bitmap (accumulator sq
                     \<lparr>videoWidth = w, videoHeight = h, frames = (\<lambda>i. replicate (w * h) (cols ! i))\<rparr>
                     cnv (length cols)) ! p
            \<noteq> opaque (arithmetic_mean cols)"
    by blast
  let ?v = "\<lparr>videoWidth = w, videoHeight = h, frames = (\<lambda>i. replicate (w * h) (cols ! i))\<rparr>"
  obtain n where n: "length cols = Suc n" using ne by (cases cols) simp_all
  have mean: "bitmap (accumulator sq ?v cnv (Suc n)) ! p =
      opaque (arithmetic_mean (map (\<lambda>i. frames ?v i ! p) [0..<Suc n]))"
    by (rule accumulator_mean) (use p in simp_all)
  have "map (\<lambda>i. frames ?v i ! p) [0..<length cols] = map (\<lambda>i. cols ! i) [0..<length cols]"
    by (rule map_cong) (use p in simp_all)
  also have "\<dots> = cols" by (rule map_nth)
  finally have "map (\<lambda>i. frames ?v i ! p) [0..<Suc n] = cols" by (simp only: n)
  with mean have "bitmap (accumulator sq ?v cnv (length cols)) ! p = opaque (arithmetic_mean cols)"
    by (simp only: n)
  with neq show False by contradiction
qed

text \<open>
  Claim C2, amended. For every number \<open>n \<ge> 1\<close> of frames of the video's size, solid or
  not, every pixel of the composite built by the \<open>1/i\<close> rule is, in exact arithmetic, the
  arithmetic mean of that pixel over the \<open>n\<close> frames, and opaque.
\<close>
theorem stacked_composite_is_mean:
  assumes n: "0 < n" and p: "p < videoWidth v * videoHeight v"
    and len: "\<forall>i<n. length (frames v i) = videoWidth v * videoHeight v"
  shows "bitmap (accumulator sq v cnv n) ! p =
           opaque (arithmetic_mean (map (\<lambda>i. frames v i ! p) [0..<n]))"
proof -
  obtain m where m: "n = Suc m" using n by (cases n) simp_all
  show ?thesis unfolding m by (rule accumulator_mean [OF p]) (use len m in simp)
qed

theorem stacked_composite_is_mean_witness:
  "bitmap (accumulator (\<lambda>x. x) ramp_video grey_canvas 4) ! 0 =
     \<lparr>red = 3 / 10, green = 0, blue = 1, alpha = 1\<rparr>
   \<and> arithmetic_mean [(0, 0, 1), (1 / 5, 0, 1), (2 / 5, 0, 1), (3 / 5, 0, 1)] = (3 / 10, 0, 1)"
proof -
  have n: "(0 :: nat) < 4" by simp
  have p: "0 < videoWidth ramp_video * videoHeight ramp_video" by (simp add: ramp_video_def)
  have len: "\<forall>i<4. length (frames ramp_video i) = videoWidth ramp_video * videoHeight ramp_video"
    by (simp add: ramp_video_def)
  have fs: "map (\<lambda>i. frames ramp_video i ! 0) [0..<4] =
      [(0, 0, 1), (1 / 5, 0, 1), (2 / 5, 0, 1), (3 / 5, 0, 1)]"
    by (simp add: ramp_video_def upt_rec)
  have m: "arithmetic_mean [(0, 0, 1), (1 / 5, 0, 1), (2 / 5, 0, 1), (3 / 5, 0, 1)] = (3 / 10, 0, 1)"
    by (simp add: arithmetic_mean_def)
  from stacked_composite_is_mean [OF n p len, of "\<lambda>x. x" grey_canvas]
  have "bitmap (accumulator (\<lambda>x. x) ramp_video grey_canvas 4) ! 0 =
      opaque (arithmetic_mean [(0, 0, 1), (1 / 5, 0, 1), (2 / 5, 0, 1), (3 / 5, 0, 1)])"
    by (simp only: fs)
  then show ?thesis by (simp add: m opaque_def)
qed

text \<open>
  Claim C3 fails on the code, by a slip of the code. On the grey canvas the two tint
  passes do change the pixel, and the claim asks for contrast and saturation on that
  tinted pixel; \<open>processSonyLook\<close> returns contrast and saturation of the original
  pixel, 31/200 in every channel, with no trace of the tints: its last \<open>drawImage\<close>
  draws the temporary canvas, which holds the original, opaque over the tinted canvas.
\<close>
theorem processSonyLook_discards_tints:
  "processSonyLook sq grey_canvas =
     Inr (grey_canvas\<lparr>bitmap := [apply_filters look_filter grey_pixel], fillStyle := orange_tint\<rparr>)
   \<and> apply_filters look_filter grey_pixel =
       \<lparr>red = 31 / 200, green = 31 / 200, blue = 31 / 200, alpha = 1\<rparr>
   \<and> bitmap (tint_passes sq grey_canvas 1 1) =
       [\<lparr>red = 135423 / 625000, green = 1981269 / 10625000, blue = 374733409 / 2210850000, alpha = 1\<rparr>]
   \<and> apply_filters look_filter
        \<lparr>red = 135423 / 625000, green = 1981269 / 10625000, blue = 374733409 / 2210850000, alpha = 1\<rparr> =
       \<lparr>red = 54366190604327 / 307062500000000, green = 42633763667327 / 307062500000000,
        blue = 324361071358693 / 2763562500000000, alpha = 1\<rparr>"
proof (intro conjI)
  have "processSonyLook sq grey_canvas =
      Inr (grey_canvas\<lparr>bitmap := map (apply_filters look_filter) (bitmap grey_canvas),
             globalCompositeOperation := SourceOver, fillStyle := orange_tint, ctx_filter := []\<rparr>)"
    by (rule processSonyLook_opaque) (simp_all add: grey_canvas_def grey_pixel_def)
  then show "processSonyLook sq grey_canvas =
     Inr (grey_canvas\<lparr>bitmap := [apply_filters look_filter grey_pixel], fillStyle := orange_tint\<rparr>)"
    by (simp add: grey_canvas_def)
  show "apply_filters look_filter grey_pixel =
       \<lparr>red = 31 / 200, green = 31 / 200, blue = 31 / 200, alpha = 1\<rparr>"
    by (simp add: apply_filters_def look_filter_def grey_pixel_def clamp01_def)
  show "bitmap (tint_passes sq grey_canvas 1 1) =
       [\<lparr>red = 135423 / 625000, green = 1981269 / 10625000, blue = 374733409 / 2210850000, alpha = 1\<rparr>]"
    by (simp add: tint_passes_def fillRect_def draw_at_origin_def draw_pixel_def composite_def
        composite_channel_def apply_filters_def overlay_def hard_light_def multiply_def screen_def
        soft_light_def blue_tint_def orange_tint_def grey_canvas_def grey_pixel_def pixel_at_def
        Let_def)
  show "apply_filters look_filter
        \<lparr>red = 135423 / 625000, green = 1981269 / 10625000, blue = 374733409 / 2210850000, alpha = 1\<rparr> =
       \<lparr>red = 54366190604327 / 307062500000000, green = 42633763667327 / 307062500000000,
        blue = 324361071358693 / 2763562500000000, alpha = 1\<rparr>"
    by (simp add: apply_filters_def look_filter_def clamp01_def)
qed

section \<open>The claims about capture requests and about the analysis\<close>

lemma set_size_state:
  "context2d (set_height (set_width cnv w) h) = context2d cnv"
  "width (set_height (set_width cnv w) h) = w"
  "height (set_height (set_width cnv w) h) = h"
  by (simp_all add: set_height_def set_width_def reset_state_def)

lemma capture_pipeline_succeeds:
  assumes ctx: "context2d cnv" and w: "0 < videoWidth v" and h: "0 < videoHeight v"
  shows "\<exists>c dataUrl. capture_pipeline sq enc m v cnv = Inr (c, dataUrl) \<and> dataUrl \<noteq> []"
proof (cases "m = PRO")
  case True
  then show ?thesis
    using performStacking_Inr [OF ctx w h, of sq enc]
    by (auto simp: capture_pipeline_def toDataURL_nonempty)
next
  case False
  let ?c = "set_height (set_width cnv (videoWidth v)) (videoHeight v)"
  have "0 < width (drawImage_video sq ?c v 0)" "0 < height (drawImage_video sq ?c v 0)"
    using w h by (simp_all add: drawImage_video_state set_size_state)
  from processSonyLook_succeeds [OF this, of sq]
  obtain c where "processSonyLook sq (drawImage_video sq ?c v 0) = Inr c" by blast
  then show ?thesis using False ctx
    by (simp add: capture_pipeline_def normal_capture_def Let_def set_size_state toDataURL_nonempty)
qed




text \<open>
  Claim C8. The analysis returns a string for every key, every SDK client and every
  image and never raises: the missing-key sentinel for an empty key, the could-not-analyze
  sentinel when the client throws from either call. \<open>handleAiAnalysis\<close> stores the
  string returned and leaves the photos as they are.
\<close>
theorem analysis_never_raises:
  "(\<exists>r. analyzeImageScene apiKey ai base64Image = Inr r)
   \<and> (apiKey = [] \<longrightarrow>
        analyzeImageScene apiKey ai base64Image = Inr ''API Key missing. AI features disabled.'')
   \<and> (apiKey \<noteq> [] \<and> (getGenerativeModel ai \<noteq> None
                        \<or> isl (generateContent ai (base64Data base64Image))) \<longrightarrow>
        analyzeImageScene apiKey ai base64Image = Inr ''Could not analyze scene.'')
   \<and> (\<exists>r. analyzeImageScene apiKey ai (url photo) = Inr r
            \<and> aiAnalysis (handleAiAnalysis apiKey ai s photo) = Some r)
   \<and> photos (handleAiAnalysis apiKey ai s photo) = photos s
   \<and> isAnalyzing (handleAiAnalysis apiKey ai s photo) = False"
proof -
  have ret: "\<exists>r. analyzeImageScene k ai img = Inr r" for k img
    by (simp add: analyzeImageScene_def try_catch_def split: option.splits sum.splits)
  have key: "apiKey = [] \<longrightarrow>
      analyzeImageScene apiKey ai base64Image = Inr ''API Key missing. AI features disabled.''"
    by (simp add: analyzeImageScene_def)
  have thrown: "apiKey \<noteq> [] \<and> (getGenerativeModel ai \<noteq> None
        \<or> isl (generateContent ai (base64Data base64Image))) \<longrightarrow>
      analyzeImageScene apiKey ai base64Image = Inr ''Could not analyze scene.''"
    by (auto simp: analyzeImageScene_def try_catch_def isl_def split: option.splits sum.splits)
  obtain r where r: "analyzeImageScene apiKey ai (url photo) = Inr r" using ret by blast
  then have h: "aiAnalysis (handleAiAnalysis apiKey ai s photo) = Some r"
    "photos (handleAiAnalysis apiKey ai s photo) = photos s"
    "isAnalyzing (handleAiAnalysis apiKey ai s photo) = False"
    by (simp_all add: handleAiAnalysis_def Let_def)
  show ?thesis using ret [of apiKey base64Image] key thrown r h by blast
qed

theorem analysis_never_raises_witness:
  "analyzeImageScene [] \<lparr>getGenerativeModel = None, generateContent = (\<lambda>d. Inr (Some ''ISO 100''))\<rparr>
     ''data:image/jpeg;base64,/9j/'' = Inr ''API Key missing. AI features disabled.''
   \<and> analyzeImageScene ''key'' \<lparr>getGenerativeModel = None, generateContent = (\<lambda>d. Inl (JsError ''fetch failed''))\<rparr>
       ''data:image/jpeg;base64,/9j/'' = Inr ''Could not analyze scene.''
   \<and> analyzeImageScene ''key'' \<lparr>getGenerativeModel = Some (JsError ''not a function''),
         generateContent = (\<lambda>d. Inr (Some ''ISO 100''))\<rparr>
       ''data:image/jpeg;base64,/9j/'' = Inr ''Could not analyze scene.''"
proof -
  let ?ok = "\<lparr>getGenerativeModel = None, generateContent = (\<lambda>d. Inr (Some ''ISO 100''))\<rparr>"
  let ?net = "\<lparr>getGenerativeModel = None, generateContent = (\<lambda>d :: string option. Inl (JsError ''fetch failed'') :: js_error + string option)\<rparr>"
  let ?old = "\<lparr>getGenerativeModel = Some (JsError ''not a function''),
         generateContent = (\<lambda>d. Inr (Some ''ISO 100''))\<rparr>"
  let ?img = "''data:image/jpeg;base64,/9j/''"
  have 1: "analyzeImageScene [] ?ok ?img = Inr ''API Key missing. AI features disabled.''"
    using analysis_never_raises [of "[]" ?ok ?img] by blast
  have "''key'' \<noteq> [] \<and> (getGenerativeModel ?net \<noteq> None \<or> isl (generateContent ?net (base64Data ?img)))"
    by simp
  then have 2: "analyzeImageScene ''key'' ?net ?img = Inr ''Could not analyze scene.''"
    using analysis_never_raises [of "''key''" ?net ?img] by blast
  have "''key'' \<noteq> [] \<and> (getGenerativeModel ?old \<noteq> None \<or> isl (generateContent ?old (base64Data ?img)))"
    by simp
  then have 3: "analyzeImageScene ''key'' ?old ?img = Inr ''Could not analyze scene.''"
    using analysis_never_raises [of "''key''" ?old ?img] by blast
  show ?thesis by (intro conjI 1 2 3)
qed

section \<open>The claim about the photo collection\<close>

lemma capture_step_photos:
  "photos (capture_step sq enc e s) =
     (case artifact_of sq enc e s of None \<Rightarrow> photos s | Some a \<Rightarrow> a # photos s)"
proof -
  let ?s0 = "before_capture e s"
  have ph: "photos ?s0 = photos s" by (simp add: before_capture_def)
  show ?thesis
  proof (cases "videoRef ?s0 = None \<or> canvasRef ?s0 = None \<or> isCapturing ?s0")
    case True
    then show ?thesis
      by (auto simp: capture_step_def handleCapture_def handleCapture_begin_def artifact_of_def ph
          Let_def split: option.splits)
  next
    case False
    then obtain v cnv where refs: "videoRef ?s0 = Some v" "canvasRef ?s0 = Some cnv" by auto
    show ?thesis using False refs ph
      by (simp add: capture_step_def handleCapture_def handleCapture_begin_def artifact_of_def
          handleCapture_finish_def Let_def split: sum.splits prod.splits)
  qed
qed

lemma run_captures_photos:
  "photos (run_captures sq enc es s) = rev (artifacts sq enc es s) @ photos s"
proof (induction es arbitrary: s)
  case Nil
  show ?case by simp
next
  case (Cons e es)
  show ?case
    by (simp add: Cons.IH capture_step_photos split: option.splits)
qed

text \<open>
  Claim C10. A capture that completes with an artifact puts it in front of the photos
  and any other capture leaves the photos as they are; so after a sequence of captures
  the photos are the artifacts in the reverse of the order they were completed in, in
  front of the photos there were, and the URL shown as the last photo is that of the
  artifact completed last.
\<close>
theorem photos_are_most_recent_first:
  "photos (capture_step sq enc e s) =
     (case artifact_of sq enc e s of None \<Rightarrow> photos s | Some a \<Rightarrow> a # photos s)
   \<and> photos (run_captures sq enc es s) = rev (artifacts sq enc es s) @ photos s
   \<and> lastPhotoUrl (run_captures sq enc es s) =
       (case artifacts sq enc es s of
          [] \<Rightarrow> lastPhotoUrl s
        | a # as \<Rightarrow> Some (url (last (a # as))))"
proof -
  have "lastPhotoUrl (run_captures sq enc es s) =
       (case artifacts sq enc es s of
          [] \<Rightarrow> lastPhotoUrl s
        | a # as \<Rightarrow> Some (url (last (a # as))))"
  proof (cases "artifacts sq enc es s" rule: rev_cases)
    case Nil
    then show ?thesis by (simp add: lastPhotoUrl_def run_captures_photos)
  next
    case (snoc as a)
    then show ?thesis
      by (cases as) (simp_all add: lastPhotoUrl_def run_captures_photos)
  qed
  then show ?thesis using capture_step_photos run_captures_photos by blast
qed

text \<open>Two captures from the initial state, the first in photo mode, the second stacked.\<close>
theorem photos_are_most_recent_first_witness:
  "\<exists>a b. photos (run_captures (\<lambda>x. x) (\<lambda>w h px. ''/9j/'')
               [\<lparr>ev_mode = PHOTO, ev_settings = DEFAULT_SETTINGS, ev_video = ramp_video,
                  ev_t1 = 1700000000000, ev_t2 = 1700000000001\<rparr>,
                \<lparr>ev_mode = PRO, ev_settings = DEFAULT_SETTINGS, ev_video = ramp_video,
                  ev_t1 = 1700000005000, ev_t2 = 1700000005002\<rparr>] initial_app) = [b, a]
        \<and> timestamp a = 1700000000001 \<and> \<not> isEnhanced a
        \<and> timestamp b = 1700000005002 \<and> isEnhanced b
        \<and> lastPhotoUrl (run_captures (\<lambda>x. x) (\<lambda>w h px. ''/9j/'')
               [\<lparr>ev_mode = PHOTO, ev_settings = DEFAULT_SETTINGS, ev_video = ramp_video,
                  ev_t1 = 1700000000000, ev_t2 = 1700000000001\<rparr>,
                \<lparr>ev_mode = PRO, ev_settings = DEFAULT_SETTINGS, ev_video = ramp_video,
                  ev_t1 = 1700000005000, ev_t2 = 1700000005002\<rparr>] initial_app) = Some (url b)"
proof -
  let ?sq = "\<lambda>x :: rat. x" and ?enc = "\<lambda>(w :: nat) (h :: nat) (px :: rgba list). ''/9j/''"
  let ?e1 = "\<lparr>ev_mode = PHOTO, ev_settings = DEFAULT_SETTINGS, ev_video = ramp_video,
                  ev_t1 = 1700000000000, ev_t2 = 1700000000001\<rparr>"
  let ?e2 = "\<lparr>ev_mode = PRO, ev_settings = DEFAULT_SETTINGS, ev_video = ramp_video,
                  ev_t1 = 1700000005000, ev_t2 = 1700000005002\<rparr>"
  have art: "\<exists>a. artifact_of ?sq ?enc e s = Some a \<and> timestamp a = ev_t2 e
               \<and> isEnhanced a = (ev_mode e = PRO)"
    if "videoRef s = Some v" "canvasRef s = Some cnv" "context2d cnv" "\<not> isCapturing s"
      "ev_video e = ramp_video" for e s v cnv
  proof -
    have "0 < videoWidth ramp_video" "0 < videoHeight ramp_video" by (simp_all add: ramp_video_def)
    from capture_pipeline_succeeds [OF that(3) this, of ?sq ?enc "ev_mode e"]
    obtain c dataUrl where "capture_pipeline ?sq ?enc (ev_mode e) ramp_video cnv = Inr (c, dataUrl)"
      "dataUrl \<noteq> []" by blast
    then show ?thesis using that
      by (simp add: artifact_of_def before_capture_def handleCapture_begin_def Let_def newPhoto_def)
  qed
  have step: "videoRef (capture_step ?sq ?enc e s) = Some ramp_video
      \<and> (\<exists>c. canvasRef (capture_step ?sq ?enc e s) = Some c \<and> context2d c)
      \<and> \<not> isCapturing (capture_step ?sq ?enc e s)"
    if "videoRef s = Some v" "canvasRef s = Some cnv" "context2d cnv" "\<not> isCapturing s"
      "ev_video e = ramp_video" for e s v cnv
  proof -
    have wh: "0 < videoWidth ramp_video" "0 < videoHeight ramp_video" by (simp_all add: ramp_video_def)
    have "\<exists>c dataUrl. capture_pipeline ?sq ?enc m ramp_video cnv = Inr (c, dataUrl) \<and> context2d c" for m
    proof (cases "m = PRO")
      case True
      let ?c = "(accumulator ?sq ramp_video cnv frameCount)\<lparr>globalAlpha := 1\<rparr>"
      from performStacking_Inr [OF that(3) wh, of ?sq ?enc]
      obtain look where l: "processSonyLook ?sq ?c = Inr look"
        "performStacking ?sq ?enc ramp_video cnv = Inr (look, toDataURL ?enc look)" by blast
      have "length (bitmap ?c) = width ?c * height ?c" "context2d ?c" "0 < width ?c" "0 < height ?c"
        "globalAlpha ?c = 1"
        using accumulator_state [of ?sq ramp_video cnv frameCount] that(3) wh by simp_all
      moreover have "\<forall>p<width ?c * height ?c. alpha (bitmap ?c ! p) = 1"
      proof (intro allI impI)
        fix p assume "p < width ?c * height ?c"
        then have p: "p < videoWidth ramp_video * videoHeight ramp_video"
          using accumulator_state [of ?sq ramp_video cnv frameCount] by simp
        have "bitmap (accumulator ?sq ramp_video cnv (Suc 3)) ! p =
            opaque (arithmetic_mean (map (\<lambda>i. frames ramp_video i ! p) [0..<Suc 3]))"
          by (rule accumulator_mean [OF p]) (simp add: ramp_video_def)
        then show "alpha (bitmap ?c ! p) = 1"
          by (simp add: frameCount_def opaque_def eval_nat_numeral split: prod.splits)
      qed
      ultimately have "context2d look"
        using processSonyLook_opaque [of ?c ?sq] l(1) by auto
      then show ?thesis using True l(2) by (auto simp: capture_pipeline_def)
    next
      case False
      let ?c = "drawImage_video ?sq (set_height (set_width cnv 1) 1) ramp_video 0"
      have "0 < width ?c" "0 < height ?c" by (simp_all add: drawImage_video_state set_size_state)
      from processSonyLook_succeeds [OF this, of ?sq]
      obtain look where l: "processSonyLook ?sq ?c = Inr look" by blast
      have "context2d look"
      proof (cases "context2d ?c")
        case True
        then show ?thesis using l
          by (auto simp: processSonyLook_def Let_def temp_canvas drawImage_canvas_def
              draw_at_origin_state clearRect_state tint_passes_state split: sum.splits if_splits)
      next
        case False
        then show ?thesis using that(3) by (simp add: drawImage_video_state set_size_state)
      qed
      then show ?thesis using False l that(3)
        by (auto simp: capture_pipeline_def normal_capture_def Let_def set_size_state ramp_video_def)
    qed
    then obtain c dataUrl where "capture_pipeline ?sq ?enc (ev_mode e) ramp_video cnv = Inr (c, dataUrl)"
      "context2d c" by blast
    then show ?thesis using that
      by (simp add: capture_step_def handleCapture_def handleCapture_begin_def before_capture_def
          handleCapture_finish_def)
  qed
  have init: "videoRef initial_app = Some ramp_video" "canvasRef initial_app = Some grey_canvas"
    "context2d grey_canvas" "\<not> isCapturing initial_app" "photos initial_app = []"
    by (simp_all add: initial_app_def grey_canvas_def)
  from art [OF init(1-4), of ?e1] obtain a where a: "artifact_of ?sq ?enc ?e1 initial_app = Some a"
    "timestamp a = 1700000000001" "\<not> isEnhanced a" by auto
  from step [OF init(1-4), of ?e1] obtain c where s1: "videoRef (capture_step ?sq ?enc ?e1 initial_app) = Some ramp_video"
    "canvasRef (capture_step ?sq ?enc ?e1 initial_app) = Some c" "context2d c"
    "\<not> isCapturing (capture_step ?sq ?enc ?e1 initial_app)" by auto
  from art [OF s1, of ?e2] obtain b where b: "artifact_of ?sq ?enc ?e2 (capture_step ?sq ?enc ?e1 initial_app) = Some b"
    "timestamp b = 1700000005002" "isEnhanced b" by auto
  have arts: "artifacts ?sq ?enc [?e1, ?e2] initial_app = [a, b]" using a(1) b(1) by simp
  note t = photos_are_most_recent_first [where sq = ?sq and enc = ?enc and es = "[?e1, ?e2]"
      and s = initial_app]
  have "photos (run_captures ?sq ?enc [?e1, ?e2] initial_app) = [b, a]"
    using t [THEN conjunct2, THEN conjunct1] init(5)
    by (simp add: arts del: run_captures.simps artifacts.simps)
  moreover have "lastPhotoUrl (run_captures ?sq ?enc [?e1, ?e2] initial_app) = Some (url b)"
    using t [THEN conjunct2, THEN conjunct2]
    by (simp add: arts del: run_captures.simps artifacts.simps)
  ultimately show ?thesis using a(2,3) b(2,3) by blast
qed

end
